theory Spec2Isabelle
  imports Main
begin

section \<open>Data model\<close>

text \<open>
  The operation names of the interface package (\<open>TypeOperation | SystemOperation\<close>).
  The four names the bundle service switches on are constructors of their own; every
  other name (\<open>patch\<close>, \<open>vread\<close>, \<open>history-type\<close>, ...) is \<open>OtherOperation\<close>
  with the name as written.
\<close>

datatype operation = Create | Read | Update | Delete | OtherOperation string

text \<open>
  Modelled from the spec: \<open>documentStatus.ts\<close> (the enum \<open>DOCUMENT_STATUS\<close>) is
  imported by both source files; the spec lists its five values.
\<close>

datatype DOCUMENT_STATUS = AVAILABLE | PENDING | LOCKED | PENDING_DELETE | DELETED

datatype BatchReadWriteErrorType = USER_ERROR | SYSTEM_ERROR

text \<open>
  A FHIR resource as far as the bundle service reads it: \<open>resourceType\<close>, \<open>id\<close>,
  \<open>meta.versionId\<close>, \<open>meta.lastUpdated\<close>; the rest of the document is an opaque
  body.
\<close>

record fhir_resource =
  res_resourceType :: string
  res_id :: string
  meta_versionId :: "string option"
  meta_lastUpdated :: "string option"
  res_body :: string

text \<open>A stored row: the resource together with the range key and the status.\<close>

record ddb_item =
  item_resource :: fhir_resource
  item_vid :: string
  item_documentStatus :: DOCUMENT_STATUS

text \<open>
  \<open>BatchReadWriteRequest\<close>. The interface declares \<open>id: string\<close>; a create request
  without an id carries the empty string, which \<open>if (request.id)\<close> treats like a missing
  one.
\<close>

record BatchReadWriteRequest =
  rq_operation :: operation
  rq_resourceType :: string
  rq_id :: string
  rq_resource :: fhir_resource

text \<open>
  \<open>BatchReadWriteResponse\<close>. \<open>vid\<close> is \<open>None\<close> where the source stores
  \<open>undefined\<close> (a delete or read whose id is not in the version map); \<open>resource\<close> is
  \<open>None\<close> for the empty object.
\<close>

record BatchReadWriteResponse =
  rs_id :: string
  rs_vid :: "string option"
  rs_operation :: operation
  rs_lastModified :: string
  rs_resourceType :: string
  rs_resource :: "fhir_resource option"

text \<open>\<open>ItemRequest\<close>: a lock record, with its two optional fields.\<close>

record ItemRequest =
  lk_id :: string
  lk_vid :: "string option"
  lk_resourceType :: string
  lk_operation :: operation
  lk_isOriginalUpdateItem :: "bool option"

text \<open>The entries of \<open>itemsToRemoveFromLock\<close>.\<close>

record lock_removal =
  rm_id :: string
  rm_vid :: "string option"
  rm_resourceType :: string

text \<open>
  Modelled from the spec: \<open>dynamoDbParamBuilder.ts\<close> and the marshalling of
  \<open>dynamoDb.ts\<close> are not among the sources. A request descriptor records the
  builder that made it and its arguments:
  \<open>UpdateDocumentStatus old new id vid\<close> is
  \<open>buildUpdateDocumentStatusParam(old, new, id, vid)\<close> (a status write, conditioned on
  the current status when \<open>old\<close> is given), \<open>DeleteParam id vid\<close> is
  \<open>buildDeleteParam(id, vid)\<close>, \<open>Put item\<close> and \<open>Get id vid\<close> are the literal
  \<open>{Put: ...}\<close> and \<open>{Get: ...}\<close> objects of the staging helper.
\<close>

datatype request =
    UpdateDocumentStatus "DOCUMENT_STATUS option" DOCUMENT_STATUS string "string option"
  | DeleteParam string "string option"
  | Put ddb_item
  | Get string "string option"

section \<open>JavaScript primitives used by the helper\<close>

text \<open>JavaScript truthiness of an optional string, and \<open>x || d\<close> on it.\<close>

definition truthy :: "string option \<Rightarrow> bool" where
  "truthy x = (case x of None \<Rightarrow> False | Some s \<Rightarrow> s \<noteq> [])"

definition or_default :: "string option \<Rightarrow> string \<Rightarrow> string" where
  "or_default x d = (case x of None \<Rightarrow> d | Some s \<Rightarrow> if s = [] then d else s)"

text \<open>An optional string inside a template literal: \<open>undefined\<close> prints as such.\<close>

definition template :: "string option \<Rightarrow> string" where
  "template x = (case x of None \<Rightarrow> ''undefined'' | Some s \<Rightarrow> s)"

text \<open>
  \<open>parseInt(s, 10)\<close> on ASCII text: leading white space is skipped, one sign is read,
  then the longest run of decimal digits; no digit gives \<open>NaN\<close>, here \<open>None\<close>.
  The value is exact here; the source's doubles agree below \<open>2^53\<close>.
\<close>

definition isWhiteSpace :: "char \<Rightarrow> bool" where
  "isWhiteSpace c = (c \<in> set [CHR 0x09, CHR 0x0A, CHR 0x0B, CHR 0x0C, CHR 0x0D, CHR 0x20])"

definition isDigit :: "char \<Rightarrow> bool" where
  "isDigit c = (c \<in> set ''0123456789'')"

definition digitValue :: "char \<Rightarrow> int" where
  "digitValue c = int (of_char c) - 48"

definition digitsValue :: "string \<Rightarrow> int" where
  "digitsValue ds = foldl (\<lambda>n c. 10 * n + digitValue c) 0 ds"

definition parseInt10 :: "string \<Rightarrow> int option" where
  "parseInt10 s =
     (let t = dropWhile isWhiteSpace s;
          neg = (t \<noteq> [] \<and> hd t = CHR ''-'');
          u = (if t \<noteq> [] \<and> (hd t = CHR ''-'' \<or> hd t = CHR ''+'') then tl t else t);
          z = takeWhile isDigit u
      in if z = [] then None
         else Some (if neg then - digitsValue z else digitsValue z))"

text \<open>\<open>Number.prototype.toString\<close> on an integer: decimal digits, a sign when negative.\<close>

fun natToString :: "nat \<Rightarrow> string" where
  "natToString n =
     (if n < 10 then [''0123456789'' ! n]
      else natToString (n div 10) @ [''0123456789'' ! (n mod 10)])"

declare natToString.simps [simp del]

definition intToString :: "int \<Rightarrow> string" where
  "intToString n = (if n < 0 then CHR ''-'' # natToString (nat (- n)) else natToString (nat n))"

text \<open>
  \<open>((parseInt(idToVersionId[id], 10) || 0) + 1).toString()\<close>: a missing entry prints as
  \<open>undefined\<close>, which has no digit; \<open>NaN\<close> and \<open>0\<close> are falsy.
\<close>

definition nextVersion :: "string option \<Rightarrow> string" where
  "nextVersion v =
     (let parsed = (case v of None \<Rightarrow> None | Some s \<Rightarrow> parseInt10 s);
          n = (case parsed of None \<Rightarrow> 0 | Some k \<Rightarrow> if k = 0 then 0 else k)
      in intToString (n + 1))"

section \<open>The staging helper\<close>

text \<open>
  The two sources of values the helper reads from outside: \<open>uuidv4()\<close> and the clock
  behind \<open>new Date()\<close>. Each is a function of the position of the request that asks.
\<close>

record outside =
  uuidv4 :: "nat \<Rightarrow> string"
  isoNow :: "nat \<Rightarrow> string"

text \<open>
  Modelled from the spec: \<open>DynamoDbUtil.prepItemForDdbInsert\<close> is not among the
  sources. It builds the row to write: the resource with the given id, \<open>meta.versionId\<close>
  the version, \<open>meta.lastUpdated\<close> the current time, and the status.
\<close>

definition prepItemForDdbInsert ::
  "fhir_resource \<Rightarrow> string \<Rightarrow> string \<Rightarrow> DOCUMENT_STATUS \<Rightarrow> string \<Rightarrow> ddb_item" where
  "prepItemForDdbInsert res i v st now =
     \<lparr>item_resource = res\<lparr>res_id := i, meta_versionId := Some v, meta_lastUpdated := Some now\<rparr>,
      item_vid = v, item_documentStatus = st\<rparr>"

text \<open>
  Modelled from the spec: \<open>DynamoDbUtil.cleanItem\<close> after
  \<open>DynamoDBConverter.unmarshall\<close> gives back the resource of a row, without the
  bookkeeping fields.
\<close>

definition cleanItem :: "ddb_item \<Rightarrow> fhir_resource" where
  "cleanItem it = item_resource it"

definition addStagingResponseAndItemsLocked ::
  "string \<Rightarrow> string \<Rightarrow> string \<Rightarrow> operation \<Rightarrow> string \<Rightarrow> BatchReadWriteResponse \<times> ItemRequest" where
  "addStagingResponseAndItemsLocked i v rt opn lastModified =
     (\<lparr>rs_id = i, rs_vid = Some v, rs_operation = opn, rs_lastModified = lastModified,
       rs_resourceType = rt, rs_resource = None\<rparr>,
      \<lparr>lk_id = i, lk_vid = Some v, lk_resourceType = rt, lk_operation = opn,
       lk_isOriginalUpdateItem = (if opn = Update then Some False else None)\<rparr>)"

record staging =
  deleteRequests :: "request list"
  createRequests :: "request list"
  updateRequests :: "request list"
  readRequests :: "request list"
  newLocks :: "ItemRequest list"
  newStagingResponses :: "BatchReadWriteResponse list"

text \<open>The body of the \<open>forEach\<close> of \<open>generateStagingRequests\<close>, for the request at position \<open>k\<close>.\<close>

definition stageRequest ::
  "outside \<Rightarrow> (string \<rightharpoonup> string) \<Rightarrow> nat \<Rightarrow> BatchReadWriteRequest \<Rightarrow> staging \<Rightarrow> staging" where
  "stageRequest out idToVersionId k r acc =
     (case rq_operation r of
        Create \<Rightarrow>
          (let i = (if rq_id r \<noteq> [] then rq_id r else uuidv4 out k);
               v = ''1'';
               Item = prepItemForDdbInsert (rq_resource r) i v PENDING (isoNow out k);
               (stagingResponse, itemLocked) =
                 addStagingResponseAndItemsLocked i v (rq_resourceType r) (rq_operation r)
                   (isoNow out k)
           in acc\<lparr>createRequests := createRequests acc @ [Put Item],
                  newStagingResponses := newStagingResponses acc @ [stagingResponse],
                  newLocks := newLocks acc @ [itemLocked]\<rparr>)
      | Update \<Rightarrow>
          (let i = res_id (rq_resource r);
               v = nextVersion (idToVersionId i);
               Item = prepItemForDdbInsert (rq_resource r) i v PENDING (isoNow out k);
               (stagingResponse, itemLocked) =
                 addStagingResponseAndItemsLocked i v (rq_resourceType r) (rq_operation r)
                   (isoNow out k)
           in acc\<lparr>updateRequests := updateRequests acc @ [Put Item],
                  newStagingResponses := newStagingResponses acc @ [stagingResponse],
                  newLocks := newLocks acc @ [itemLocked]\<rparr>)
      | Delete \<Rightarrow>
          (let i = rq_id r;
               v = idToVersionId i
           in acc\<lparr>deleteRequests :=
                    deleteRequests acc @ [UpdateDocumentStatus (Some LOCKED) PENDING_DELETE i v],
                  newStagingResponses := newStagingResponses acc @
                    [\<lparr>rs_id = i, rs_vid = v, rs_operation = rq_operation r,
                      rs_lastModified = isoNow out k, rs_resourceType = rq_resourceType r,
                      rs_resource = None\<rparr>]\<rparr>)
      | Read \<Rightarrow>
          (let i = rq_id r;
               v = idToVersionId i
           in acc\<lparr>readRequests := readRequests acc @ [Get i v],
                  newStagingResponses := newStagingResponses acc @
                    [\<lparr>rs_id = i, rs_vid = v, rs_operation = rq_operation r,
                      rs_lastModified = [], rs_resourceType = rq_resourceType r,
                      rs_resource = None\<rparr>]\<rparr>)
      | OtherOperation n \<Rightarrow> acc)"

fun stagingLoop ::
  "outside \<Rightarrow> (string \<rightharpoonup> string) \<Rightarrow> nat \<Rightarrow> BatchReadWriteRequest list \<Rightarrow> staging \<Rightarrow> staging" where
  "stagingLoop out idToVersionId k [] acc = acc"
| "stagingLoop out idToVersionId k (r # rs) acc =
     stagingLoop out idToVersionId (Suc k) rs (stageRequest out idToVersionId k r acc)"

definition generateStagingRequests ::
  "outside \<Rightarrow> BatchReadWriteRequest list \<Rightarrow> (string \<rightharpoonup> string) \<Rightarrow> staging" where
  "generateStagingRequests out requests idToVersionId =
     stagingLoop out idToVersionId 0 requests
       \<lparr>deleteRequests = [], createRequests = [], updateRequests = [], readRequests = [],
        newLocks = [], newStagingResponses = []\<rparr>"

definition generateDeleteLatestRecordAndItemToRemoveFromLock ::
  "string \<Rightarrow> string \<Rightarrow> string option \<Rightarrow> request \<times> lock_removal" where
  "generateDeleteLatestRecordAndItemToRemoveFromLock rt i v =
     (DeleteParam i v, \<lparr>rm_id = i, rm_vid = v, rm_resourceType = rt\<rparr>)"

text \<open>The body of the \<open>forEach\<close> of \<open>generateRollbackRequests\<close>; the state is the pair
  \<open>(transactionRequests, itemsToRemoveFromLock)\<close>.\<close>

definition rollbackStep ::
  "request list \<times> lock_removal list \<Rightarrow> BatchReadWriteResponse \<Rightarrow> request list \<times> lock_removal list" where
  "rollbackStep acc stagingResponse =
     (if rs_operation stagingResponse = Create \<or> rs_operation stagingResponse = Update then
        (let (transactionRequest, itemToRemoveFromLock) =
               generateDeleteLatestRecordAndItemToRemoveFromLock
                 (rs_resourceType stagingResponse) (rs_id stagingResponse) (rs_vid stagingResponse)
         in (fst acc @ [transactionRequest], snd acc @ [itemToRemoveFromLock]))
      else acc)"

definition generateRollbackRequests ::
  "BatchReadWriteResponse list \<Rightarrow> request list \<times> lock_removal list" where
  "generateRollbackRequests bundleEntryResponses = foldl rollbackStep ([], []) bundleEntryResponses"

text \<open>
  \<open>populateBundleEntryResponseWithReadResult\<close>. \<open>readResult.Responses\<close> is a list whose
  entries may lack their \<open>Item\<close>; a missing \<open>readResult\<close> reads like the empty list.
  The source updates the envelopes in place, so a throw leaves the envelopes before the
  failing one updated: \<open>Inl\<close> carries the error and the array as the throw leaves it.
\<close>

datatype error = IncompleteRead | LookupFailed

definition readError :: string where
  "readError = ''Failed to fulfill all READ requests''"

definition nthOpt :: "'a list \<Rightarrow> nat \<Rightarrow> 'a option" where
  "nthOpt xs n = (if n < length xs then Some (xs ! n) else None)"

definition lastModifiedOf :: "fhir_resource \<Rightarrow> string" where
  "lastModifiedOf item =
     (if truthy (meta_lastUpdated item) then the (meta_lastUpdated item) else [])"

definition withReadResult :: "BatchReadWriteResponse \<Rightarrow> ddb_item \<Rightarrow> BatchReadWriteResponse" where
  "withReadResult stagingResponse raw =
     (let item = cleanItem raw
      in stagingResponse\<lparr>rs_resource := Some item, rs_lastModified := lastModifiedOf item\<rparr>)"

function populateLoop ::
  "BatchReadWriteResponse list \<Rightarrow> ddb_item option list \<Rightarrow> nat \<Rightarrow> nat \<Rightarrow>
   (error \<times> BatchReadWriteResponse list) + BatchReadWriteResponse list" where
  "populateLoop bundleEntryResponses responses i index =
     (if i < length bundleEntryResponses then
        (if rs_operation (bundleEntryResponses ! i) = Read then
           (case nthOpt responses index of
              Some (Some raw) \<Rightarrow>
                populateLoop (bundleEntryResponses[i := withReadResult (bundleEntryResponses ! i) raw])
                  responses (Suc i) (Suc index)
            | _ \<Rightarrow> Inl (IncompleteRead, bundleEntryResponses))
         else populateLoop bundleEntryResponses responses (Suc i) index)
      else Inr bundleEntryResponses)"
  by pat_completeness auto
termination
  by (relation "measure (\<lambda>(es, rsp, i, index). length es - i)") auto

declare populateLoop.simps [simp del]

definition populateBundleEntryResponseWithReadResult ::
  "BatchReadWriteResponse list \<Rightarrow> ddb_item option list \<Rightarrow>
   (error \<times> BatchReadWriteResponse list) + BatchReadWriteResponse list" where
  "populateBundleEntryResponseWithReadResult bundleEntryResponses responses =
     populateLoop bundleEntryResponses responses 0 0"

section \<open>The store, as the coordinator sees it\<close>

text \<open>
  What a lookup of the most recent version of an id gives: the resource, the
  \<open>ResourceNotFoundError\<close> that \<open>lockItems\<close> catches, or any other failure, which it
  rethrows.
\<close>

datatype lookup = Found fhir_resource | NotFound | Failed

text \<open>The resource of a lookup that found one.\<close>

definition foundOf :: "lookup \<Rightarrow> fhir_resource" where
  "foundOf l = (case l of Found res \<Rightarrow> res)"


text \<open>
  The client the service is constructed with. The store is outside the repository, and
  \<open>dynamoDbHelper.ts\<close> is not among the sources, so the three calls are parameters:
  \<open>getMostRecentResource\<close> of the helper (given resource type and id), and
  \<open>transactWriteItems\<close> and \<open>transactGetItems\<close> of the client. A write or read batch
  answers (\<open>True\<close>, or the list of responses) or throws (\<open>False\<close>, \<open>None\<close>), and
  leaves the store in a new state.
\<close>

record 's DynamoDB =
  getMostRecentResource :: "'s \<Rightarrow> string \<Rightarrow> string \<Rightarrow> lookup"
  transactWriteItems :: "'s \<Rightarrow> request list \<Rightarrow> bool \<times> 's"
  transactGetItems :: "'s \<Rightarrow> request list \<Rightarrow> ddb_item option list option \<times> 's"

text \<open>
  The world a transaction runs in: the state of the store, and the log of the batches
  submitted so far, each with its answer and the state of the store after it.
\<close>

datatype 's call =
    TransactWrite "request list" bool 's
  | TransactGet "request list" bool 's

record 's world =
  ddb :: 's
  calls :: "'s call list"

definition callTransactWrite :: "'s DynamoDB \<Rightarrow> request list \<Rightarrow> 's world \<Rightarrow> bool \<times> 's world" where
  "callTransactWrite db items w =
     (let (ok, s) = transactWriteItems db (ddb w) items
      in (ok, \<lparr>ddb = s, calls = calls w @ [TransactWrite items ok s]\<rparr>))"

definition callTransactGet ::
  "'s DynamoDB \<Rightarrow> request list \<Rightarrow> 's world \<Rightarrow> ddb_item option list option \<times> 's world" where
  "callTransactGet db items w =
     (let (res, s) = transactGetItems db (ddb w) items
      in (res, \<lparr>ddb = s, calls = calls w @ [TransactGet items (res \<noteq> None) s]\<rparr>))"

fun requestsOf :: "'s call \<Rightarrow> request list" where
  "requestsOf (TransactWrite items ok s) = items"
| "requestsOf (TransactGet items ok s) = items"

fun stateAfter :: "'s call \<Rightarrow> 's" where
  "stateAfter (TransactWrite items ok s) = s"
| "stateAfter (TransactGet items ok s) = s"

fun isWrite :: "'s call \<Rightarrow> bool" where
  "isWrite (TransactWrite items ok s) = True"
| "isWrite (TransactGet items ok s) = False"

fun answerOf :: "'s call \<Rightarrow> bool" where
  "answerOf (TransactWrite items ok s) = ok"
| "answerOf (TransactGet items ok s) = ok"


section \<open>The transaction coordinator\<close>

definition MAX_TRANSACTION_SIZE :: nat where
  "MAX_TRANSACTION_SIZE = 25"

definition dynamoDbMaxBatchSize :: nat where
  "dynamoDbMaxBatchSize = 25"

definition ELAPSED_TIME_WARNING_MESSAGE :: string where
  "ELAPSED_TIME_WARNING_MESSAGE =
     ''Transaction time is greater than max allowed code execution time. Please reduce your bundle size by sending fewer Bundle entries.''"

text \<open>The constructor's \<open>maxExecutionTimeMs || 26 * 1000\<close>.\<close>

definition initMaxExecutionTimeMs :: "int option \<Rightarrow> int" where
  "initMaxExecutionTimeMs m = (case m of None \<Rightarrow> 26 * 1000 | Some n \<Rightarrow> if n = 0 then 26 * 1000 else n)"

text \<open>
  The service object: the client, the time budget, and the text of
  \<open>DynamoDbParamBuilder.LOCK_DURATION_IN_MS / 1000\<close> as it prints in the lock error
  (the constant is not among the sources).
\<close>

record 's service =
  dynamoDb :: "'s DynamoDB"
  maxExecutionTimeMs :: int
  lockDurationSeconds :: string

text \<open>The clock of \<open>getElapsedTime\<close>: the value of \<open>Date.now()\<close> at the k-th checkpoint.\<close>

type_synonym clock = "nat \<Rightarrow> int"

definition getElapsedTime :: "clock \<Rightarrow> nat \<Rightarrow> int \<Rightarrow> int" where
  "getElapsedTime dateNow k startTime = dateNow k - startTime"

record BundleResponse =
  success :: bool
  message :: string
  batchReadWriteResponses :: "BatchReadWriteResponse list"
  errorType :: "BatchReadWriteErrorType option"

record lockItemsResponse =
  successfulLock :: bool
  lock_errorType :: "BatchReadWriteErrorType option"
  lock_errorMessage :: "string option"
  lock_lockedItems :: "ItemRequest list"

text \<open>An array of strings inside a template literal: the elements joined by commas.\<close>

fun joinComma :: "string list \<Rightarrow> string" where
  "joinComma [] = []"
| "joinComma [x] = x"
| "joinComma (x # y # ys) = x @ '','' @ joinComma (y # ys)"

text \<open>
  The second loop of \<open>lockItems\<close>, over the requests and their responses: a response
  that is not a resource is skipped, a resource adds its lock record (\<open>lockedItem\<close>) and
  its lock request.
\<close>

definition lockedItemOf :: "BatchReadWriteRequest \<Rightarrow> fhir_resource \<Rightarrow> ItemRequest" where
  "lockedItemOf request res =
     \<lparr>lk_id = res_id res, lk_vid = meta_versionId res,
      lk_resourceType = res_resourceType res, lk_operation = rq_operation request,
      lk_isOriginalUpdateItem = (if rq_operation request = Update then Some True else None)\<rparr>"

definition addLockRequestOf :: "fhir_resource \<Rightarrow> request" where
  "addLockRequestOf res =
     UpdateDocumentStatus (Some AVAILABLE) LOCKED (res_id res) (meta_versionId res)"

definition lockStep ::
  "ItemRequest list \<times> request list \<Rightarrow> BatchReadWriteRequest \<times> lookup \<Rightarrow>
   ItemRequest list \<times> request list" where
  "lockStep acc p =
     (case snd p of
        Found res \<Rightarrow> (fst acc @ [lockedItemOf (fst p) res], snd acc @ [addLockRequestOf res])
      | _ \<Rightarrow> acc)"

definition lockItems ::
  "'s service \<Rightarrow> BatchReadWriteRequest list \<Rightarrow> 's world \<Rightarrow> (error + lockItemsResponse) \<times> 's world" where
  "lockItems svc requests w =
     (let allNonCreateRequests = filter (\<lambda>request. rq_operation request \<noteq> Create) requests;
          itemsToLock =
            map (\<lambda>request. \<lparr>lk_id = rq_id request, lk_vid = None,
                             lk_resourceType = rq_resourceType request,
                             lk_operation = rq_operation request,
                             lk_isOriginalUpdateItem = None\<rparr>) allNonCreateRequests
      in if length itemsToLock > dynamoDbMaxBatchSize then
           (Inr \<lparr>successfulLock = False, lock_errorType = Some SYSTEM_ERROR,
                 lock_errorMessage = Some ''Cannot lock more than 25 items'',
                 lock_lockedItems = []\<rparr>, w)
         else
           (let itemResponses =
                  map (\<lambda>itemToLock. getMostRecentResource (dynamoDb svc) (ddb w)
                         (lk_resourceType itemToLock) (lk_id itemToLock)) itemsToLock
            in if Failed \<in> set itemResponses then (Inl LookupFailed, w)
               else
                 (let idItemsFailedToRead =
                        map (\<lambda>p. lk_resourceType (fst p) @ ''/'' @ lk_id (fst p))
                          (filter (\<lambda>p. snd p = NotFound) (zip itemsToLock itemResponses))
                  in if idItemsFailedToRead \<noteq> [] then
                       (Inr \<lparr>successfulLock = False, lock_errorType = Some USER_ERROR,
                             lock_errorMessage =
                               Some (''Failed to find resources: '' @ joinComma idItemsFailedToRead),
                             lock_lockedItems = []\<rparr>, w)
                     else
                       (let (lockedItems, addLockRequests) =
                              foldl lockStep ([], []) (zip allNonCreateRequests itemResponses)
                        in if addLockRequests \<noteq> [] then
                             (let (ok, w1) = callTransactWrite (dynamoDb svc) addLockRequests w
                              in if ok then
                                   (Inr \<lparr>successfulLock = True, lock_errorType = None,
                                         lock_errorMessage = None,
                                         lock_lockedItems = [] @ lockedItems\<rparr>, w1)
                                 else
                                   (Inr \<lparr>successfulLock = False,
                                         lock_errorType = Some SYSTEM_ERROR,
                                         lock_errorMessage =
                                           Some (''Failed to lock resources for transaction. Please try again after ''
                                                 @ lockDurationSeconds svc @ '' seconds.''),
                                         lock_lockedItems = []\<rparr>, w1))
                           else
                             (Inr \<lparr>successfulLock = True, lock_errorType = None,
                                   lock_errorMessage = None, lock_lockedItems = []\<rparr>, w)))))"

text \<open>
  Modelled from the spec: \<open>chunkArray\<close> comes from the interface package. It cuts a
  list into consecutive chunks of the given size, the last one shorter when the length
  is no multiple. The coordinator calls it with 25 only; size 0 is given no chunk here.
\<close>

fun chunkArray :: "'a list \<Rightarrow> nat \<Rightarrow> 'a list list" where
  "chunkArray xs n =
     (if n = 0 \<or> xs = [] then [] else take n xs # chunkArray (drop n xs) n)"

declare chunkArray.simps [simp del]

record unlockItemsResponse =
  successfulUnlock :: bool
  locksFailedToRelease :: "ItemRequest list"

text \<open>The request \<open>unlockItems\<close> builds for one lock record.\<close>

definition unlockRequest :: "bool \<Rightarrow> ItemRequest \<Rightarrow> request" where
  "unlockRequest rollBack lockedItem =
     (let newStatus =
            (if (lk_operation lockedItem = Delete \<or>
                 (lk_operation lockedItem = Update \<and>
                  lk_isOriginalUpdateItem lockedItem = Some True)) \<and> \<not> rollBack
             then DELETED else AVAILABLE)
      in UpdateDocumentStatus None newStatus (lk_id lockedItem)
           (Some (or_default (lk_vid lockedItem) ''0'')))"

function unlockLoop ::
  "'s DynamoDB \<Rightarrow> request list list \<Rightarrow> ItemRequest list list \<Rightarrow> nat \<Rightarrow> 's world \<Rightarrow>
   unlockItemsResponse \<times> 's world" where
  "unlockLoop db params lockedItemChunks i w =
     (if i < length params then
        (case callTransactWrite db (params ! i) w of
           (True, w1) \<Rightarrow> unlockLoop db params lockedItemChunks (Suc i) w1
         | (False, w1) \<Rightarrow>
             (\<lparr>successfulUnlock = False,
               locksFailedToRelease = concat (drop i lockedItemChunks)\<rparr>, w1))
      else (\<lparr>successfulUnlock = True, locksFailedToRelease = []\<rparr>, w))"
  by pat_completeness auto
termination
  by (relation "measure (\<lambda>(db, params, lockedItemChunks, i, w). length params - i)") auto

declare unlockLoop.simps [simp del]

definition unlockItems ::
  "'s service \<Rightarrow> ItemRequest list \<Rightarrow> bool \<Rightarrow> 's world \<Rightarrow> unlockItemsResponse \<times> 's world" where
  "unlockItems svc lockedItems rollBack w =
     (if lockedItems = [] then (\<lparr>successfulUnlock = True, locksFailedToRelease = []\<rparr>, w)
      else
        (let unlockRequests = map (unlockRequest rollBack) lockedItems;
             updateRequestChunks = chunkArray unlockRequests MAX_TRANSACTION_SIZE;
             lockedItemChunks = chunkArray lockedItems MAX_TRANSACTION_SIZE
         in unlockLoop (dynamoDb svc) updateRequestChunks lockedItemChunks 0 w))"

definition generateFullId :: "string \<Rightarrow> string \<Rightarrow> string" where
  "generateFullId i v = i @ ''_'' @ v"

text \<open>
  A JavaScript object with string keys none of which is an array index: the properties
  in insertion order. Assigning to a key that is there keeps its place.
\<close>

fun setProperty :: "(string \<times> 'v) list \<Rightarrow> string \<Rightarrow> 'v \<Rightarrow> (string \<times> 'v) list" where
  "setProperty [] k v = [(k, v)]"
| "setProperty (p # ps) k v = (if fst p = k then (k, v) # ps else p # setProperty ps k v)"

definition deleteProperty :: "(string \<times> 'v) list \<Rightarrow> string \<Rightarrow> (string \<times> 'v) list" where
  "deleteProperty ps k = filter (\<lambda>p. fst p \<noteq> k) ps"

definition removeLocksFromArray :: "ItemRequest list \<Rightarrow> lock_removal list \<Rightarrow> ItemRequest list" where
  "removeLocksFromArray originalLocks locksToRemove =
     (let fullIdToLockedItem =
            foldl (\<lambda>obj lockedItem.
                     setProperty obj
                       (generateFullId (lk_id lockedItem) (or_default (lk_vid lockedItem) ''0''))
                       lockedItem) [] originalLocks;
          remaining =
            foldl (\<lambda>obj itemToRemove.
                     deleteProperty obj
                       (generateFullId (rm_id itemToRemove) (template (rm_vid itemToRemove))))
              fullIdToLockedItem locksToRemove
      in map snd remaining)"

definition rollbackItems ::
  "'s service \<Rightarrow> BatchReadWriteResponse list \<Rightarrow> ItemRequest list \<Rightarrow> 's world \<Rightarrow>
   ItemRequest list \<times> 's world" where
  "rollbackItems svc batchReadWriteEntryResponses lockedItems w =
     (let (transactionRequests, itemsToRemoveFromLock) =
            generateRollbackRequests batchReadWriteEntryResponses;
          newLockedItems = removeLocksFromArray lockedItems itemsToRemoveFromLock;
          (ok, w1) = callTransactWrite (dynamoDb svc) transactionRequests w
      in (newLockedItems, w1))"

record stageItemsResponse =
  stage_success :: bool
  stage_batchReadWriteResponses :: "BatchReadWriteResponse list"
  stage_lockedItems :: "ItemRequest list"

definition idToVersionIdOf :: "ItemRequest list \<Rightarrow> (string \<rightharpoonup> string)" where
  "idToVersionIdOf lockedItems =
     foldl (\<lambda>m idItemLocked. m(lk_id idItemLocked \<mapsto> or_default (lk_vid idItemLocked) ''0''))
       Map.empty lockedItems"

text \<open>The write batch of \<open>stageItems\<close>, in the order the bundle rules give.\<close>

definition editRequests :: "staging \<Rightarrow> request list" where
  "editRequests st = deleteRequests st @ createRequests st @ updateRequests st"

definition stageItems ::
  "'s service \<Rightarrow> outside \<Rightarrow> BatchReadWriteRequest list \<Rightarrow> ItemRequest list \<Rightarrow> 's world \<Rightarrow>
   stageItemsResponse \<times> 's world" where
  "stageItems svc out requests lockedItems w =
     (let idToVersionId = idToVersionIdOf lockedItems;
          st = generateStagingRequests out requests idToVersionId;
          (wrote, w1) =
            (if editRequests st \<noteq> [] then callTransactWrite (dynamoDb svc) (editRequests st) w
             else (True, w))
      in if \<not> wrote then
           (\<lparr>stage_success = False, stage_batchReadWriteResponses = [],
             stage_lockedItems = lockedItems\<rparr>, w1)
         else
           (let allLockedItems = lockedItems @ newLocks st;
                stagedResponses = [] @ newStagingResponses st
            in if readRequests st \<noteq> [] then
                 (case callTransactGet (dynamoDb svc) (readRequests st) w1 of
                    (None, w2) \<Rightarrow>
                      (\<lparr>stage_success = False,
                        stage_batchReadWriteResponses = stagedResponses,
                        stage_lockedItems = allLockedItems\<rparr>, w2)
                  | (Some readResult, w2) \<Rightarrow>
                      (case populateBundleEntryResponseWithReadResult stagedResponses
                              readResult of
                         Inl (e, mutated) \<Rightarrow>
                           (\<lparr>stage_success = False, stage_batchReadWriteResponses = mutated,
                             stage_lockedItems = allLockedItems\<rparr>, w2)
                       | Inr populated \<Rightarrow>
                           (\<lparr>stage_success = True, stage_batchReadWriteResponses = populated,
                             stage_lockedItems = allLockedItems\<rparr>, w2)))
               else
                 (\<lparr>stage_success = True, stage_batchReadWriteResponses = stagedResponses,
                   stage_lockedItems = allLockedItems\<rparr>, w1)))"

definition transaction ::
  "'s service \<Rightarrow> outside \<Rightarrow> clock \<Rightarrow> int \<Rightarrow> BatchReadWriteRequest list \<Rightarrow> 's world \<Rightarrow>
   (error + BundleResponse) \<times> 's world" where
  "transaction svc out dateNow startTime requests w =
     (if requests = [] then
        (Inr \<lparr>success = True, message = ''No requests to process'',
              batchReadWriteResponses = [], errorType = None\<rparr>, w)
      else
        (case lockItems svc requests w of
           (Inl e, w1) \<Rightarrow> (Inl e, w1)
         | (Inr lockItemsResponse, w1) \<Rightarrow>
             (let elapsedTimeInMs = getElapsedTime dateNow 0 startTime
              in if elapsedTimeInMs > maxExecutionTimeMs svc \<or> \<not> successfulLock lockItemsResponse then
                   (let (u, w2) = unlockItems svc (lock_lockedItems lockItemsResponse) True w1
                    in if elapsedTimeInMs > maxExecutionTimeMs svc then
                         (Inr \<lparr>success = False, message = ELAPSED_TIME_WARNING_MESSAGE,
                               batchReadWriteResponses = [], errorType = Some USER_ERROR\<rparr>, w2)
                       else
                         (Inr \<lparr>success = False,
                               message = or_default (lock_errorMessage lockItemsResponse)
                                           ''Failed to lock resources for transaction'',
                               batchReadWriteResponses = [],
                               errorType = lock_errorType lockItemsResponse\<rparr>, w2))
                 else
                   (let (stageItemResponse, w2) =
                          stageItems svc out requests (lock_lockedItems lockItemsResponse) w1;
                        elapsedTimeInMs2 = getElapsedTime dateNow 1 startTime
                    in if elapsedTimeInMs2 > maxExecutionTimeMs svc \<or>
                          \<not> stage_success stageItemResponse then
                         (let (remaining, w3) =
                                rollbackItems svc (stage_batchReadWriteResponses stageItemResponse)
                                  (stage_lockedItems stageItemResponse) w2;
                              (u, w4) = unlockItems svc remaining True w3
                          in if elapsedTimeInMs2 > maxExecutionTimeMs svc then
                               (Inr \<lparr>success = False, message = ELAPSED_TIME_WARNING_MESSAGE,
                                     batchReadWriteResponses = [],
                                     errorType = Some USER_ERROR\<rparr>, w4)
                             else
                               (Inr \<lparr>success = False,
                                     message = ''Failed to stage resources for transaction'',
                                     batchReadWriteResponses = [],
                                     errorType = Some SYSTEM_ERROR\<rparr>, w4))
                       else
                         (let (u, w3) =
                                unlockItems svc (stage_lockedItems stageItemResponse) False w2
                          in (Inr \<lparr>success = True,
                                   message = ''Successfully committed requests to DB'',
                                   batchReadWriteResponses =
                                     stage_batchReadWriteResponses stageItemResponse,
                                   errorType = None\<rparr>, w3))))))"

section \<open>A store to run the coordinator on\<close>

text \<open>
  Modelled from the spec: the store itself and the meaning of the request descriptors
  (\<open>dynamoDbParamBuilder.ts\<close>) are outside the sources. The spec asks of the store: a
  status write conditioned on the current status, which fails its whole batch when the
  condition does not hold; an unconditional delete of one version row; a put of a row;
  a write batch of at most 25 requests that takes effect as a whole or not at all; a
  batch of point reads. Rows are keyed by id and version. A request without a version
  has no key and is refused. An unconditional status write to a key without a row
  leaves a row that has the key and the status only.

  A call can also fail for reasons of the store's own (the network, a throttle): the
  table carries the list of these faults, one flag for each call still to come.
\<close>

type_synonym rows = "string \<times> string \<rightharpoonup> ddb_item"

record table =
  rows :: rows
  faults :: "bool list"

definition bareRow :: "string \<Rightarrow> string \<Rightarrow> DOCUMENT_STATUS \<Rightarrow> ddb_item" where
  "bareRow i v st =
     \<lparr>item_resource = \<lparr>res_resourceType = [], res_id = i, meta_versionId = None,
                        meta_lastUpdated = None, res_body = []\<rparr>,
      item_vid = v, item_documentStatus = st\<rparr>"

fun applyWrite :: "rows \<Rightarrow> request \<Rightarrow> rows option" where
  "applyWrite t (UpdateDocumentStatus old new i (Some v)) =
     (case t (i, v) of
        Some it \<Rightarrow>
          (if old = None \<or> old = Some (item_documentStatus it)
           then Some (t((i, v) \<mapsto> it\<lparr>item_documentStatus := new\<rparr>)) else None)
      | None \<Rightarrow> (if old = None then Some (t((i, v) \<mapsto> bareRow i v new)) else None))"
| "applyWrite t (UpdateDocumentStatus old new i None) = None"
| "applyWrite t (DeleteParam i (Some v)) = Some (t((i, v) := None))"
| "applyWrite t (DeleteParam i None) = None"
| "applyWrite t (Put it) = Some (t((res_id (item_resource it), item_vid it) \<mapsto> it))"
| "applyWrite t (Get i v) = None"

fun applyWrites :: "rows \<Rightarrow> request list \<Rightarrow> rows option" where
  "applyWrites t [] = Some t"
| "applyWrites t (r # rs) =
     (case applyWrite t r of None \<Rightarrow> None | Some t1 \<Rightarrow> applyWrites t1 rs)"

fun readItem :: "rows \<Rightarrow> request \<Rightarrow> ddb_item option option" where
  "readItem t (Get i (Some v)) = Some (t (i, v))"
| "readItem t r = None"

fun readItems :: "rows \<Rightarrow> request list \<Rightarrow> ddb_item option list option" where
  "readItems t [] = Some []"
| "readItems t (r # rs) =
     (case readItem t r of
        None \<Rightarrow> None
      | Some x \<Rightarrow> (case readItems t rs of None \<Rightarrow> None | Some xs \<Rightarrow> Some (x # xs)))"

definition tableTransactWrite :: "table \<Rightarrow> request list \<Rightarrow> bool \<times> table" where
  "tableTransactWrite t items =
     (let rest = tl (faults t)
      in if faults t \<noteq> [] \<and> hd (faults t) then (False, t\<lparr>faults := rest\<rparr>)
         else if length items > 25 then (False, t\<lparr>faults := rest\<rparr>)
         else (case applyWrites (rows t) items of
                 None \<Rightarrow> (False, t\<lparr>faults := rest\<rparr>)
               | Some r \<Rightarrow> (True, \<lparr>rows = r, faults = rest\<rparr>)))"

definition tableTransactGet :: "table \<Rightarrow> request list \<Rightarrow> ddb_item option list option \<times> table" where
  "tableTransactGet t items =
     (let rest = tl (faults t)
      in if faults t \<noteq> [] \<and> hd (faults t) then (None, t\<lparr>faults := rest\<rparr>)
         else (readItems (rows t) items, t\<lparr>faults := rest\<rparr>))"

text \<open>
  The client over a table; the lookup of the most recent version stays a parameter. The
  service over it prints a lock duration of 35 seconds in its lock error, a sample value
  for the constant that is not among the sources.
\<close>

definition tableClient :: "(table \<Rightarrow> string \<Rightarrow> string \<Rightarrow> lookup) \<Rightarrow> table DynamoDB" where
  "tableClient look =
     \<lparr>getMostRecentResource = look, transactWriteItems = tableTransactWrite,
      transactGetItems = tableTransactGet\<rparr>"

definition tableService :: "(table \<Rightarrow> string \<Rightarrow> string \<Rightarrow> lookup) \<Rightarrow> int \<Rightarrow> table service" where
  "tableService look budget =
     \<lparr>dynamoDb = tableClient look, maxExecutionTimeMs = budget, lockDurationSeconds = ''35''\<rparr>"

text \<open>The status of a row, and the invariant of the status model: no id has two
  versions that are \<open>AVAILABLE\<close>.\<close>

definition statusAt :: "rows \<Rightarrow> string \<Rightarrow> string \<Rightarrow> DOCUMENT_STATUS option" where
  "statusAt t i v = map_option item_documentStatus (t (i, v))"

definition oneAvailable :: "rows \<Rightarrow> bool" where
  "oneAvailable t =
     (\<forall>i v v'. statusAt t i v = Some AVAILABLE \<and> statusAt t i v' = Some AVAILABLE \<longrightarrow> v = v')"

section \<open>Rows that are available\<close>

text \<open>
  The keys of the rows whose status is \<open>AVAILABLE\<close>; a set of keys in which no id has
  two versions; the keys a request can make \<open>AVAILABLE\<close>; and a stretch of a run, from
  one world to a later one, in which the available rows stay inside a given set after
  every batch.
\<close>

definition avail :: "rows \<Rightarrow> (string \<times> string) set" where
  "avail t = {k. statusAt t (fst k) (snd k) = Some AVAILABLE}"

definition single :: "(string \<times> string) set \<Rightarrow> bool" where
  "single S = (\<forall>i v v'. (i, v) \<in> S \<and> (i, v') \<in> S \<longrightarrow> v = v')"

fun makesAvailable :: "request \<Rightarrow> (string \<times> string) set" where
  "makesAvailable (UpdateDocumentStatus old new i (Some v)) =
     (if new = AVAILABLE then {(i, v)} else {})"
| "makesAvailable (Put it) =
     (if item_documentStatus it = AVAILABLE then {(res_id (item_resource it), item_vid it)} else {})"
| "makesAvailable r = {}"

definition within :: "table world \<Rightarrow> table world \<Rightarrow> (string \<times> string) set \<Rightarrow> bool" where
  "within w w1 U =
     ((\<exists>new. calls w1 = calls w @ new \<and> (\<forall>c\<in>set new. avail (rows (stateAfter c)) \<subseteq> U)) \<and>
      avail (rows (ddb w1)) \<subseteq> U)"

text \<open>
  The key the unlock phase writes for a lock record, the \<open>fullId\<close> under which
  \<open>removeLocksFromArray\<close> files a lock record and a removal, and the fields of an
  envelope that the rollback reads.
\<close>

definition lockKey :: "ItemRequest \<Rightarrow> string \<times> string" where
  "lockKey l = (lk_id l, or_default (lk_vid l) ''0'')"

definition lockFullId :: "ItemRequest \<Rightarrow> string" where
  "lockFullId l = generateFullId (lk_id l) (or_default (lk_vid l) ''0'')"

definition removalFullId :: "lock_removal \<Rightarrow> string" where
  "removalFullId x = generateFullId (rm_id x) (template (rm_vid x))"

definition envKey :: "BatchReadWriteResponse \<Rightarrow> string \<times> string option \<times> operation \<times> string" where
  "envKey e = (rs_id e, rs_vid e, rs_operation e, rs_resourceType e)"

section \<open>The read merge, as the specification words it\<close>

text \<open>
  The specification's description of the read merge, to compare the source's loop with:
  walk the envelopes, and give each read envelope the next result in order; a read
  envelope without a result row makes the walk fail.
\<close>

fun walkReads ::
  "BatchReadWriteResponse list \<Rightarrow> ddb_item option list \<Rightarrow> BatchReadWriteResponse list option" where
  "walkReads [] rsp = Some []"
| "walkReads (e # es) rsp =
     (if rs_operation e = Read then
        (case rsp of
           Some raw # rest \<Rightarrow> map_option ((#) (withReadResult e raw)) (walkReads es rest)
         | _ \<Rightarrow> None)
      else map_option ((#) e) (walkReads es rsp))"


text \<open>
  Submitting batches strictly in turn: each batch goes to the store as the batch before
  it left it, and the first batch that fails is the last one submitted. The log of these
  calls is what the unlock loop is compared with.
\<close>

fun submitInTurn :: "'s DynamoDB \<Rightarrow> 's \<Rightarrow> request list list \<Rightarrow> 's call list" where
  "submitInTurn db s [] = []"
| "submitInTurn db s (p # ps) =
     (case transactWriteItems db s p of
        (ok, s1) \<Rightarrow> TransactWrite p ok s1 # (if ok then submitInTurn db s1 ps else []))"

section \<open>Sample data\<close>

text \<open>
  Resources, rows, envelopes, requests and lock records to run the definitions on. The
  timestamps and the resource type are those of the repository's test factory.
\<close>

definition sampleResource :: "string \<Rightarrow> string \<Rightarrow> fhir_resource" where
  "sampleResource i v =
     \<lparr>res_resourceType = ''Patient'', res_id = i, meta_versionId = Some v,
      meta_lastUpdated = Some ''2020-04-10T20:41:39.912Z'', res_body = ''{}''\<rparr>"

definition sampleRow :: "string \<Rightarrow> string \<Rightarrow> DOCUMENT_STATUS \<Rightarrow> ddb_item" where
  "sampleRow i v st =
     \<lparr>item_resource = sampleResource i v, item_vid = v, item_documentStatus = st\<rparr>"

definition sampleEnvelope :: "operation \<Rightarrow> string \<Rightarrow> string \<Rightarrow> BatchReadWriteResponse" where
  "sampleEnvelope opn i v =
     \<lparr>rs_id = i, rs_vid = Some v, rs_operation = opn, rs_lastModified = [],
      rs_resourceType = ''Patient'', rs_resource = None\<rparr>"

text \<open>Minted ids that are numbered, and a clock that stands still.\<close>

definition sampleOutside :: outside where
  "sampleOutside =
     \<lparr>uuidv4 = (\<lambda>k. ''uuid-'' @ natToString k), isoNow = (\<lambda>k. ''2020-04-23T15:19:35.843Z'')\<rparr>"

definition sampleRequest :: "operation \<Rightarrow> string \<Rightarrow> BatchReadWriteRequest" where
  "sampleRequest opn i =
     \<lparr>rq_operation = opn, rq_resourceType = ''Patient'', rq_id = i,
      rq_resource = sampleResource i ''1''\<rparr>"

text \<open>
  A store that only counts the calls made to it and fails the one numbered \<open>k\<close>, and
  finds no resource.
\<close>

definition countingClient :: "nat \<Rightarrow> nat DynamoDB" where
  "countingClient k =
     \<lparr>getMostRecentResource = (\<lambda>s rt i. NotFound),
      transactWriteItems = (\<lambda>s items. (s \<noteq> k, Suc s)),
      transactGetItems = (\<lambda>s items. (if s \<noteq> k then Some [] else None, Suc s))\<rparr>"

definition countingService :: "nat \<Rightarrow> nat service" where
  "countingService k =
     \<lparr>dynamoDb = countingClient k, maxExecutionTimeMs = 26000, lockDurationSeconds = ''35''\<rparr>"

definition sampleLock :: "operation \<Rightarrow> string \<Rightarrow> string \<Rightarrow> bool option \<Rightarrow> ItemRequest" where
  "sampleLock opn i v orig =
     \<lparr>lk_id = i, lk_vid = Some v, lk_resourceType = ''Patient'', lk_operation = opn,
      lk_isOriginalUpdateItem = orig\<rparr>"

definition sampleLocks :: "nat \<Rightarrow> ItemRequest list" where
  "sampleLocks n = map (\<lambda>k. sampleLock Read (natToString k) ''1'' None) [0..<n]"

definition sampleWorld :: "nat world" where
  "sampleWorld = \<lparr>ddb = 0, calls = []\<rparr>"

definition sampleHeldLocks :: "ItemRequest list" where
  "sampleHeldLocks =
     [sampleLock Update ''X'' ''3'' (Some True), sampleLock Update ''X'' ''4'' (Some False),
      sampleLock Delete ''Y'' ''1'' None, sampleLock Read ''Z'' ''2'' None,
      sampleLock Create ''W'' ''1'' None]"

text \<open>
  A table with the given rows and faults and an empty log, and a lookup that knows a
  fixed list of resources by type and id.
\<close>

definition sampleTable :: "((string \<times> string) \<times> ddb_item) list \<Rightarrow> bool list \<Rightarrow> table world" where
  "sampleTable kvs fs = \<lparr>ddb = \<lparr>rows = map_of kvs, faults = fs\<rparr>, calls = []\<rparr>"

definition sampleLookup :: "fhir_resource list \<Rightarrow> table \<Rightarrow> string \<Rightarrow> string \<Rightarrow> lookup" where
  "sampleLookup known t rt i =
     (case find (\<lambda>r. res_resourceType r = rt \<and> res_id r = i) known of
        Some r \<Rightarrow> Found r
      | None \<Rightarrow> NotFound)"

definition lockedX :: "table world" where
  "lockedX = sampleTable [((''X'', ''1''), sampleRow ''X'' ''1'' LOCKED)] []"

definition availableX :: "table world" where
  "availableX = sampleTable [((''X'', ''1''), sampleRow ''X'' ''1'' AVAILABLE)] []"

definition laterVersionX :: "table world" where
  "laterVersionX = sampleTable [((''X'', ''2''), sampleRow ''X'' ''2'' AVAILABLE)] []"

text \<open>A store with two ids, the resources a lookup finds in it, and a bundle of an update,
  a create without an id and a delete.\<close>

definition sampleStore :: "table world" where
  "sampleStore =
     sampleTable [((''X'', ''2''), sampleRow ''X'' ''2'' DELETED),
                  ((''X'', ''3''), sampleRow ''X'' ''3'' AVAILABLE),
                  ((''Y'', ''1''), sampleRow ''Y'' ''1'' AVAILABLE)] []"

definition sampleBundle :: "BatchReadWriteRequest list" where
  "sampleBundle = [sampleRequest Update ''X'', sampleRequest Create [], sampleRequest Delete ''Y'']"

definition sampleKnown :: "fhir_resource list" where
  "sampleKnown = [sampleResource ''X'' ''3'', sampleResource ''Y'' ''1'']"

text \<open>A table that holds the rows of \<open>sampleHeldLocks\<close> as a staged transaction leaves them.\<close>

definition heldStore :: "table world" where
  "heldStore =
     sampleTable [((''X'', ''3''), sampleRow ''X'' ''3'' LOCKED),
                  ((''X'', ''4''), sampleRow ''X'' ''4'' PENDING),
                  ((''Y'', ''1''), sampleRow ''Y'' ''1'' PENDING_DELETE),
                  ((''Z'', ''2''), sampleRow ''Z'' ''2'' LOCKED),
                  ((''W'', ''1''), sampleRow ''W'' ''1'' PENDING)] []"

section \<open>Properties of the staging helper\<close>

subsection \<open>What each request contributes\<close>

lemma stagingLoop_deleteRequests:
  "deleteRequests (stagingLoop out m k rs acc) =
     deleteRequests acc @
     map (\<lambda>(j, r). UpdateDocumentStatus (Some LOCKED) PENDING_DELETE (rq_id r) (m (rq_id r)))
       (filter (\<lambda>(j, r). rq_operation r = Delete) (enumerate k rs))"
  by (induction rs arbitrary: k acc)
     (auto simp: stageRequest_def addStagingResponseAndItemsLocked_def Let_def
           split: operation.splits)

lemma stagingLoop_createRequests:
  "createRequests (stagingLoop out m k rs acc) =
     createRequests acc @
     map (\<lambda>(j, r). Put (prepItemForDdbInsert (rq_resource r)
                          (if rq_id r \<noteq> [] then rq_id r else uuidv4 out j) ''1'' PENDING
                          (isoNow out j)))
       (filter (\<lambda>(j, r). rq_operation r = Create) (enumerate k rs))"
  by (induction rs arbitrary: k acc)
     (auto simp: stageRequest_def addStagingResponseAndItemsLocked_def Let_def
           split: operation.splits)

lemma stagingLoop_updateRequests:
  "updateRequests (stagingLoop out m k rs acc) =
     updateRequests acc @
     map (\<lambda>(j, r). Put (prepItemForDdbInsert (rq_resource r) (res_id (rq_resource r))
                          (nextVersion (m (res_id (rq_resource r)))) PENDING (isoNow out j)))
       (filter (\<lambda>(j, r). rq_operation r = Update) (enumerate k rs))"
  by (induction rs arbitrary: k acc)
     (auto simp: stageRequest_def addStagingResponseAndItemsLocked_def Let_def
           split: operation.splits)

lemma stagingLoop_readRequests:
  "readRequests (stagingLoop out m k rs acc) =
     readRequests acc @
     map (\<lambda>r. Get (rq_id r) (m (rq_id r))) (filter (\<lambda>r. rq_operation r = Read) rs)"
  by (induction rs arbitrary: k acc)
     (auto simp: stageRequest_def addStagingResponseAndItemsLocked_def Let_def
           split: operation.splits)

lemma stagingLoop_newStagingResponses:
  "newStagingResponses (stagingLoop out m k rs acc) =
     newStagingResponses acc @
     map (\<lambda>(j, r).
            \<lparr>rs_id = (case rq_operation r of
                        Create \<Rightarrow> (if rq_id r \<noteq> [] then rq_id r else uuidv4 out j)
                      | Update \<Rightarrow> res_id (rq_resource r)
                      | _ \<Rightarrow> rq_id r),
              rs_vid = (case rq_operation r of
                        Create \<Rightarrow> Some ''1''
                      | Update \<Rightarrow> Some (nextVersion (m (res_id (rq_resource r))))
                      | _ \<Rightarrow> m (rq_id r)),
              rs_operation = rq_operation r,
              rs_lastModified = (if rq_operation r = Read then [] else isoNow out j),
              rs_resourceType = rq_resourceType r,
              rs_resource = None\<rparr>)
       (filter (\<lambda>(j, r). rq_operation r \<in> {Create, Read, Update, Delete}) (enumerate k rs))"
  by (induction rs arbitrary: k acc)
     (auto simp: stageRequest_def addStagingResponseAndItemsLocked_def Let_def
           split: operation.splits)

lemma stagingLoop_newLocks:
  "newLocks (stagingLoop out m k rs acc) =
     newLocks acc @
     map (\<lambda>(j, r).
            \<lparr>lk_id = (if rq_operation r = Create
                      then (if rq_id r \<noteq> [] then rq_id r else uuidv4 out j)
                      else res_id (rq_resource r)),
             lk_vid = Some (if rq_operation r = Create then ''1''
                            else nextVersion (m (res_id (rq_resource r)))),
             lk_resourceType = rq_resourceType r,
             lk_operation = rq_operation r,
             lk_isOriginalUpdateItem = (if rq_operation r = Update then Some False else None)\<rparr>)
       (filter (\<lambda>(j, r). rq_operation r = Create \<or> rq_operation r = Update) (enumerate k rs))"
  by (induction rs arbitrary: k acc)
     (auto simp: stageRequest_def addStagingResponseAndItemsLocked_def Let_def
           split: operation.splits)

lemma stageItems_writes:
  "map requestsOf (filter isWrite (calls (snd (stageItems svc out requests lockedItems w)))) =
   map requestsOf (filter isWrite (calls w)) @
   (if editRequests (generateStagingRequests out requests (idToVersionIdOf lockedItems)) = []
    then []
    else [editRequests (generateStagingRequests out requests (idToVersionIdOf lockedItems))])"
  by (auto simp: stageItems_def callTransactWrite_def callTransactGet_def Let_def
           split: prod.splits option.splits sum.splits if_splits)


text \<open>
  C2: the write batch of the stage phase lists the status updates of the deletes first,
  then the puts of the creates, then the puts of the updates, each group in the order of
  the input, whatever the order of the operations in the input; and this batch is the
  one write batch \<open>stageItems\<close> submits (none when it is empty).
\<close>

theorem staged_write_order:
  "editRequests (generateStagingRequests out requests idToVersionId) =
     map (\<lambda>(j, r). UpdateDocumentStatus (Some LOCKED) PENDING_DELETE (rq_id r)
                      (idToVersionId (rq_id r)))
       (filter (\<lambda>(j, r). rq_operation r = Delete) (enumerate 0 requests)) @
     map (\<lambda>(j, r). Put (prepItemForDdbInsert (rq_resource r)
                          (if rq_id r \<noteq> [] then rq_id r else uuidv4 out j) ''1'' PENDING
                          (isoNow out j)))
       (filter (\<lambda>(j, r). rq_operation r = Create) (enumerate 0 requests)) @
     map (\<lambda>(j, r). Put (prepItemForDdbInsert (rq_resource r) (res_id (rq_resource r))
                          (nextVersion (idToVersionId (res_id (rq_resource r)))) PENDING
                          (isoNow out j)))
       (filter (\<lambda>(j, r). rq_operation r = Update) (enumerate 0 requests)) \<and>
   map requestsOf (filter isWrite (calls (snd (stageItems svc out requests lockedItems w)))) =
     map requestsOf (filter isWrite (calls w)) @
     (if editRequests (generateStagingRequests out requests (idToVersionIdOf lockedItems)) = []
      then []
      else [editRequests (generateStagingRequests out requests (idToVersionIdOf lockedItems))])"
  by (simp add: editRequests_def generateStagingRequests_def stagingLoop_deleteRequests
        stagingLoop_createRequests stagingLoop_updateRequests
        stageItems_writes [unfolded editRequests_def generateStagingRequests_def])


subsection \<open>Rollback requests\<close>

lemma rollback_foldl:
  "foldl rollbackStep acc es =
     (fst acc @ map (\<lambda>e. DeleteParam (rs_id e) (rs_vid e))
                  (filter (\<lambda>e. rs_operation e = Create \<or> rs_operation e = Update) es),
      snd acc @ map (\<lambda>e. \<lparr>rm_id = rs_id e, rm_vid = rs_vid e, rm_resourceType = rs_resourceType e\<rparr>)
                  (filter (\<lambda>e. rs_operation e = Create \<or> rs_operation e = Update) es))"
  by (induction es arbitrary: acc)
     (auto simp: rollbackStep_def generateDeleteLatestRecordAndItemToRemoveFromLock_def)

text \<open>
  C3: \<open>generateRollbackRequests\<close> gives one delete request and one lock removal, for the
  same id and version, for each envelope whose operation is create or update, in the
  order of the envelopes, and nothing for any other envelope.
\<close>

theorem generateRollbackRequests_coverage:
  "generateRollbackRequests bundleEntryResponses =
     (map (\<lambda>e. DeleteParam (rs_id e) (rs_vid e))
        (filter (\<lambda>e. rs_operation e = Create \<or> rs_operation e = Update) bundleEntryResponses),
      map (\<lambda>e. \<lparr>rm_id = rs_id e, rm_vid = rs_vid e, rm_resourceType = rs_resourceType e\<rparr>)
        (filter (\<lambda>e. rs_operation e = Create \<or> rs_operation e = Update) bundleEntryResponses))"
  by (simp add: generateRollbackRequests_def rollback_foldl)

subsection \<open>The version of a staged update\<close>

lemma nextVersion_fallback:
  "m = None \<or> (\<exists>s. m = Some s \<and> parseInt10 s = None) \<Longrightarrow> nextVersion m = ''1''"
  by (auto simp: nextVersion_def intToString_def natToString.simps)

lemma in_enumerate_nth: "k < length xs \<Longrightarrow> (k, xs ! k) \<in> set (enumerate 0 xs)"
  by (simp add: in_set_enumerate_eq)


text \<open>
  C9: an update whose id has no entry in the version map, or an entry that does not
  parse as an integer, is staged at version 1: its put, its envelope and its lock record
  all carry version 1, and nothing fails.
\<close>

theorem update_without_version_stages_1:
  assumes "k < length requests"
    and "rq_operation (requests ! k) = Update"
    and "idToVersionId (res_id (rq_resource (requests ! k))) = None \<or>
         (\<exists>s. idToVersionId (res_id (rq_resource (requests ! k))) = Some s \<and> parseInt10 s = None)"
  shows "Put (prepItemForDdbInsert (rq_resource (requests ! k)) (res_id (rq_resource (requests ! k)))
                ''1'' PENDING (isoNow out k))
           \<in> set (updateRequests (generateStagingRequests out requests idToVersionId)) \<and>
         \<lparr>rs_id = res_id (rq_resource (requests ! k)), rs_vid = Some ''1'', rs_operation = Update,
           rs_lastModified = isoNow out k, rs_resourceType = rq_resourceType (requests ! k),
           rs_resource = None\<rparr>
           \<in> set (newStagingResponses (generateStagingRequests out requests idToVersionId)) \<and>
         \<lparr>lk_id = res_id (rq_resource (requests ! k)), lk_vid = Some ''1'',
           lk_resourceType = rq_resourceType (requests ! k), lk_operation = Update,
           lk_isOriginalUpdateItem = Some False\<rparr>
           \<in> set (newLocks (generateStagingRequests out requests idToVersionId))"
proof -
  let ?r = "requests ! k"
  have v: "nextVersion (idToVersionId (res_id (rq_resource ?r))) = ''1''"
    using assms(3) by (rule nextVersion_fallback)
  have mem: "(k, ?r) \<in> set (enumerate 0 requests)"
    using assms(1) by (rule in_enumerate_nth)
  have 1: "Put (prepItemForDdbInsert (rq_resource ?r) (res_id (rq_resource ?r)) ''1'' PENDING
                 (isoNow out k))
             \<in> set (updateRequests (generateStagingRequests out requests idToVersionId))"
    unfolding generateStagingRequests_def stagingLoop_updateRequests
    using mem assms(2) v by (force simp: image_iff)
  have 2: "\<lparr>rs_id = res_id (rq_resource ?r), rs_vid = Some ''1'', rs_operation = Update,
            rs_lastModified = isoNow out k, rs_resourceType = rq_resourceType ?r,
            rs_resource = None\<rparr>
             \<in> set (newStagingResponses (generateStagingRequests out requests idToVersionId))"
    unfolding generateStagingRequests_def stagingLoop_newStagingResponses
    using mem assms(2) v by (force simp: image_iff)
  have 3: "\<lparr>lk_id = res_id (rq_resource ?r), lk_vid = Some ''1'',
            lk_resourceType = rq_resourceType ?r, lk_operation = Update,
            lk_isOriginalUpdateItem = Some False\<rparr>
             \<in> set (newLocks (generateStagingRequests out requests idToVersionId))"
    unfolding generateStagingRequests_def stagingLoop_newLocks
    using mem assms(2) v by (force simp: image_iff)
  from 1 2 3 show ?thesis by blast
qed


theorem update_without_version_stages_1_witness:
  "(0::nat) < length [sampleRequest Update ''X''] \<and>
   rq_operation ([sampleRequest Update ''X''] ! 0) = Update \<and>
   Map.empty (res_id (rq_resource ([sampleRequest Update ''X''] ! 0))) = (None :: string option) \<and>
   Put (prepItemForDdbInsert (sampleResource ''X'' ''1'') ''X'' ''1'' PENDING
          ''2020-04-23T15:19:35.843Z'')
     \<in> set (updateRequests (generateStagingRequests sampleOutside [sampleRequest Update ''X'']
                Map.empty)) \<and>
   parseInt10 ''abc'' = None \<and>
   Put (prepItemForDdbInsert (sampleResource ''X'' ''1'') ''X'' ''1'' PENDING
          ''2020-04-23T15:19:35.843Z'')
     \<in> set (updateRequests (generateStagingRequests sampleOutside [sampleRequest Update ''X'']
                [''X'' \<mapsto> ''abc'']))"
proof -
  have p: "parseInt10 ''abc'' = None"
    by (simp add: parseInt10_def isWhiteSpace_def isDigit_def Let_def)
  have r: "rq_operation (sampleRequest Update ''X'') = Update"
          "rq_resource (sampleRequest Update ''X'') = sampleResource ''X'' ''1''"
          "res_id (sampleResource ''X'' ''1'') = ''X''"
          "isoNow sampleOutside 0 = ''2020-04-23T15:19:35.843Z''"
    by (simp_all add: sampleRequest_def sampleResource_def sampleOutside_def)
  show ?thesis
    using update_without_version_stages_1
            [of 0 "[sampleRequest Update ''X'']" Map.empty sampleOutside]
          update_without_version_stages_1
            [of 0 "[sampleRequest Update ''X'']" "[''X'' \<mapsto> ''abc'']" sampleOutside]
    by (simp add: p r)
qed

subsection \<open>The read merge\<close>

lemma withReadResult_operation [simp]:
  "rs_operation (withReadResult e raw) = rs_operation e"
  by (simp add: withReadResult_def Let_def)

lemma populateLoop_walk:
  "i \<le> length es \<Longrightarrow>
   (case walkReads (drop i es) (drop index rsp) of
      Some out \<Rightarrow> populateLoop es rsp i index = Inr (take i es @ out)
    | None \<Rightarrow> (\<exists>arr. populateLoop es rsp i index = Inl (IncompleteRead, arr)))"
proof (induction es rsp i index rule: populateLoop.induct)
  case (1 es rsp i index)
  show ?case
  proof (cases "i < length es")
    case False
    with "1.prems" have "i = length es" by simp
    then show ?thesis by (simp add: populateLoop.simps)
  next
    case inb: True
    then have dr: "drop i es = es ! i # drop (Suc i) es"
      by (simp add: Cons_nth_drop_Suc)
    show ?thesis
    proof (cases "rs_operation (es ! i) = Read")
      case notread: False
      from "1.IH"(2)[OF inb notread] inb
      have ih: "case walkReads (drop (Suc i) es) (drop index rsp) of
                  Some out \<Rightarrow> populateLoop es rsp (Suc i) index = Inr (take (Suc i) es @ out)
                | None \<Rightarrow> (\<exists>arr. populateLoop es rsp (Suc i) index = Inl (IncompleteRead, arr))"
        by simp
      have step: "populateLoop es rsp i index = populateLoop es rsp (Suc i) index"
        using inb notread by (subst populateLoop.simps) simp
      show ?thesis
        using ih inb notread
        by (auto simp: dr step take_Suc_conv_app_nth split: option.splits)
    next
      case isread: True
      show ?thesis
      proof (cases "nthOpt rsp index")
        case None
        then have "drop index rsp = []" by (simp add: nthOpt_def split: if_splits)
        moreover have "populateLoop es rsp i index = Inl (IncompleteRead, es)"
          using inb isread None by (subst populateLoop.simps) simp
        ultimately show ?thesis using isread by (simp add: dr)
      next
        case (Some x)
        then have ib: "index < length rsp" and x: "x = rsp ! index"
          by (auto simp: nthOpt_def split: if_splits)
        then have drr: "drop index rsp = x # drop (Suc index) rsp"
          by (simp add: Cons_nth_drop_Suc)
        show ?thesis
        proof (cases x)
          case None
          have "populateLoop es rsp i index = Inl (IncompleteRead, es)"
            using inb isread Some None by (subst populateLoop.simps) simp
          then show ?thesis using isread None by (simp add: dr drr)
        next
          case (Some raw)
          let ?es = "es[i := withReadResult (es ! i) raw]"
          have nth: "nthOpt rsp index = Some (Some raw)"
            using \<open>nthOpt rsp index = Some x\<close> Some by simp
          have "i \<le> length ?es" using inb by simp
          from "1.IH"(1)[OF inb isread nth] inb
          have ih: "case walkReads (drop (Suc i) ?es) (drop (Suc index) rsp) of
                  Some out \<Rightarrow> populateLoop ?es rsp (Suc i) (Suc index) = Inr (take (Suc i) ?es @ out)
                | None \<Rightarrow> (\<exists>arr. populateLoop ?es rsp (Suc i) (Suc index) = Inl (IncompleteRead, arr))"
            by simp
          have step: "populateLoop es rsp i index = populateLoop ?es rsp (Suc i) (Suc index)"
            using inb isread nth by (subst populateLoop.simps) simp
          have d2: "drop (Suc i) ?es = drop (Suc i) es" by simp
          have t2: "take (Suc i) ?es = take i es @ [withReadResult (es ! i) raw]"
            using inb by (simp add: take_Suc_conv_app_nth)
          show ?thesis
            using ih isread Some
            by (auto simp: dr drr step d2 t2 split: option.splits)
        qed
      qed
    qed
  qed
qed


lemma nthOpt_Cons_0 [simp]: "nthOpt (x # xs) 0 = Some x"
  by (simp add: nthOpt_def)

lemma nthOpt_Cons_Suc [simp]: "nthOpt (x # xs) (Suc k) = nthOpt xs k"
  by (simp add: nthOpt_def)

lemma nthOpt_Nil [simp]: "nthOpt [] k = None"
  by (simp add: nthOpt_def)

lemma walkReads_Some_iff:
  "(\<exists>out. walkReads es rsp = Some out) \<longleftrightarrow>
   (\<forall>k<length (filter (\<lambda>e. rs_operation e = Read) es). \<exists>raw. nthOpt rsp k = Some (Some raw))"
proof (induction es arbitrary: rsp)
  case Nil
  then show ?case by simp
next
  case (Cons e es)
  show ?case
  proof (cases "rs_operation e = Read")
    case False
    then show ?thesis using Cons.IH[of rsp] by simp
  next
    case True
    show ?thesis
    proof (cases rsp)
      case Nil
      then show ?thesis using True by (auto intro: exI[of _ 0])
    next
      case rc: (Cons x rest)
      show ?thesis
      proof (cases x)
        case None
        then show ?thesis using True rc by (simp add: All_less_Suc2)
      next
        case (Some raw)
        then show ?thesis
          using True rc Cons.IH[of rest] by (simp add: All_less_Suc2)
      qed
    qed
  qed
qed
lemma walkReads_Some:
  "walkReads es rsp = Some out \<Longrightarrow>
   length out = length es \<and>
   (\<forall>j<length es. out ! j =
      (if rs_operation (es ! j) = Read
       then withReadResult (es ! j)
              (the (rsp ! length (filter (\<lambda>e. rs_operation e = Read) (take j es))))
       else es ! j))"
proof (induction es arbitrary: rsp out)
  case Nil
  then show ?case by simp
next
  case (Cons e es)
  show ?case
  proof (cases "rs_operation e = Read")
    case False
    with Cons.prems obtain out' where o: "walkReads es rsp = Some out'" "out = e # out'"
      by auto
    from Cons.IH[OF o(1)] show ?thesis
      using False o(2) by (auto simp: nth_Cons split: nat.splits)
  next
    case True
    with Cons.prems obtain raw rest out' where
      r: "rsp = Some raw # rest" and o: "walkReads es rest = Some out'"
      "out = withReadResult e raw # out'"
      by (auto split: list.splits option.splits)
    from Cons.IH[OF o(1)] show ?thesis
      using True o(2) r by (auto simp: nth_Cons split: nat.splits)
  qed
qed




text \<open>
  C4: when every read envelope has a result row (the k-th read envelope the k-th row),
  the merge returns the envelopes with each read envelope given the resource and the
  last-modified time of its row, the k-th row for the k-th read envelope in list order,
  and every other envelope as it was; when some read envelope has no result row, the
  merge throws the incomplete-read error instead of returning.
\<close>

theorem populate_read_merge:
  "(if \<forall>k<length (filter (\<lambda>e. rs_operation e = Read) envs). \<exists>raw. nthOpt responses k = Some (Some raw)
    then \<exists>out. populateBundleEntryResponseWithReadResult envs responses = Inr out \<and>
           length out = length envs \<and>
           (\<forall>j<length envs. out ! j =
              (if rs_operation (envs ! j) = Read
               then (envs ! j)
                      \<lparr>rs_resource :=
                         Some (cleanItem (the (responses !
                                 length (filter (\<lambda>e. rs_operation e = Read) (take j envs))))),
                       rs_lastModified :=
                         lastModifiedOf (cleanItem (the (responses !
                                 length (filter (\<lambda>e. rs_operation e = Read) (take j envs)))))\<rparr>
               else envs ! j))
    else \<exists>arr. populateBundleEntryResponseWithReadResult envs responses = Inl (IncompleteRead, arr))"
proof (cases "walkReads envs responses")
  case None
  then have nc: "\<not> (\<forall>k<length (filter (\<lambda>e. rs_operation e = Read) envs).
                 \<exists>raw. nthOpt responses k = Some (Some raw))"
    using walkReads_Some_iff[of envs responses] by simp
  have thrown: "\<exists>arr. populateBundleEntryResponseWithReadResult envs responses =
                   Inl (IncompleteRead, arr)"
    using populateLoop_walk[where i=0 and index=0 and es=envs and rsp=responses] None
    by (simp add: populateBundleEntryResponseWithReadResult_def)
  show ?thesis by (subst if_not_P[OF nc]) (rule thrown)
next
  case (Some out)
  then have c: "\<forall>k<length (filter (\<lambda>e. rs_operation e = Read) envs).
                 \<exists>raw. nthOpt responses k = Some (Some raw)"
    using walkReads_Some_iff[of envs responses] by blast
  have p: "populateBundleEntryResponseWithReadResult envs responses = Inr out"
    using populateLoop_walk[where i=0 and index=0 and es=envs and rsp=responses] Some
    by (simp add: populateBundleEntryResponseWithReadResult_def)
  from walkReads_Some[OF Some] have
    "length out = length envs \<and>
     (\<forall>j<length envs. out ! j =
        (if rs_operation (envs ! j) = Read
         then withReadResult (envs ! j)
                (the (responses ! length (filter (\<lambda>e. rs_operation e = Read) (take j envs))))
         else envs ! j))" .
  then show ?thesis
    using c p by (simp add: withReadResult_def Let_def)
qed

theorem populate_read_merge_witness:
  "(\<exists>out. populateBundleEntryResponseWithReadResult
            [sampleEnvelope Read ''a'' ''1'', sampleEnvelope Create ''b'' ''1'',
             sampleEnvelope Read ''c'' ''2'']
            [Some (sampleRow ''a'' ''1'' LOCKED), Some (sampleRow ''c'' ''2'' LOCKED)] = Inr out \<and>
          out ! 0 = (sampleEnvelope Read ''a'' ''1'')
                      \<lparr>rs_resource := Some (sampleResource ''a'' ''1''),
                       rs_lastModified := ''2020-04-10T20:41:39.912Z''\<rparr> \<and>
          out ! 1 = sampleEnvelope Create ''b'' ''1'' \<and>
          out ! 2 = (sampleEnvelope Read ''c'' ''2'')
                      \<lparr>rs_resource := Some (sampleResource ''c'' ''2''),
                       rs_lastModified := ''2020-04-10T20:41:39.912Z''\<rparr>) \<and>
   (\<exists>arr. populateBundleEntryResponseWithReadResult
            [sampleEnvelope Read ''a'' ''1'', sampleEnvelope Create ''b'' ''1'',
             sampleEnvelope Read ''c'' ''2'']
            [Some (sampleRow ''a'' ''1'' LOCKED)] = Inl (IncompleteRead, arr))"
proof -
  have op [simp]: "\<And>opn i v. rs_operation (sampleEnvelope opn i v) = opn"
    by (simp add: sampleEnvelope_def)
  have cl [simp]: "\<And>i v st. cleanItem (sampleRow i v st) = sampleResource i v"
    by (simp add: cleanItem_def sampleRow_def)
  have lm [simp]: "\<And>i v. lastModifiedOf (sampleResource i v) = ''2020-04-10T20:41:39.912Z''"
    by (simp add: lastModifiedOf_def sampleResource_def truthy_def)
  show ?thesis
    using populate_read_merge
            [of "[sampleEnvelope Read ''a'' ''1'', sampleEnvelope Create ''b'' ''1'',
                  sampleEnvelope Read ''c'' ''2'']"
                "[Some (sampleRow ''a'' ''1'' LOCKED), Some (sampleRow ''c'' ''2'' LOCKED)]"]
          populate_read_merge
            [of "[sampleEnvelope Read ''a'' ''1'', sampleEnvelope Create ''b'' ''1'',
                  sampleEnvelope Read ''c'' ''2'']"
                "[Some (sampleRow ''a'' ''1'' LOCKED)]"]
    by (simp add: All_less_Suc nthOpt_def numeral_2_eq_2) blast
qed

section \<open>Properties of the unlock phase\<close>

lemma concat_chunkArray: "0 < n \<Longrightarrow> concat (chunkArray xs n) = xs"
proof (induction xs n rule: chunkArray.induct)
  case (1 xs n)
  then show ?case by (subst chunkArray.simps) auto
qed

lemma chunkArray_map: "chunkArray (map f xs) n = map (map f) (chunkArray xs n)"
proof (induction xs n rule: chunkArray.induct)
  case (1 xs n)
  show ?case
  proof (cases "n = 0 \<or> xs = []")
    case True
    then show ?thesis by (auto simp: chunkArray.simps)
  next
    case False
    then have "chunkArray (map f (drop n xs)) n = map (map f) (chunkArray (drop n xs) n)"
      using 1 by simp
    then show ?thesis
      using False
      by (subst chunkArray.simps, subst (2) chunkArray.simps) (simp add: take_map drop_map)
  qed
qed

lemma chunkArray_bounds: "c \<in> set (chunkArray xs n) \<Longrightarrow> c \<noteq> [] \<and> length c \<le> n"
proof (induction xs n rule: chunkArray.induct)
  case (1 xs n)
  show ?case
  proof (cases "n = 0 \<or> xs = []")
    case True
    then show ?thesis using "1.prems" by (simp add: chunkArray.simps)
  next
    case False
    from "1.prems" have "c = take n xs \<or> c \<in> set (chunkArray (drop n xs) n)"
      using False by (subst (asm) chunkArray.simps) auto
    then show ?thesis
      using False "1.IH" by auto
  qed
qed

lemma submitInTurn_shape:
  "\<exists>n\<le>length ps.
     submitInTurn db s ps = submitInTurn db s (take (Suc n) ps) \<and>
     map answerOf (submitInTurn db s ps) =
       replicate n True @ replicate (min 1 (length ps - n)) False \<and>
     map requestsOf (submitInTurn db s ps) = take (Suc n) ps"
proof (induction ps arbitrary: s)
  case Nil
  then show ?case by simp
next
  case (Cons p ps)
  obtain ok s1 where c: "transactWriteItems db s p = (ok, s1)" by (cases "transactWriteItems db s p")
  show ?case
  proof (cases ok)
    case False
    then show ?thesis using c by (intro exI[of _ 0]) simp
  next
    case True
    from Cons.IH[of s1] obtain n where n: "n \<le> length ps"
      "submitInTurn db s1 ps = submitInTurn db s1 (take (Suc n) ps)"
      "map answerOf (submitInTurn db s1 ps) =
         replicate n True @ replicate (min 1 (length ps - n)) False"
      "map requestsOf (submitInTurn db s1 ps) = take (Suc n) ps"
      by blast
    show ?thesis
      using c True n by (intro exI[of _ "Suc n"]) simp
  qed
qed

lemma unlockLoop_log:
  "calls (snd (unlockLoop db ps lcs i w)) = calls w @ submitInTurn db (ddb w) (drop i ps) \<and>
   fst (unlockLoop db ps lcs i w) =
     (if list_all answerOf (submitInTurn db (ddb w) (drop i ps))
      then \<lparr>successfulUnlock = True, locksFailedToRelease = []\<rparr>
      else \<lparr>successfulUnlock = False,
            locksFailedToRelease =
              concat (drop (i + length (submitInTurn db (ddb w) (drop i ps)) - 1) lcs)\<rparr>)"
proof (induction db ps lcs i w rule: unlockLoop.induct)
  case (1 db ps lcs i w)
  show ?case
  proof (cases "i < length ps")
    case False
    then show ?thesis by (subst (1 2) unlockLoop.simps) simp
  next
    case True
    then have dr: "drop i ps = ps ! i # drop (Suc i) ps" by (simp add: Cons_nth_drop_Suc)
    obtain ok s1 where c: "transactWriteItems db (ddb w) (ps ! i) = (ok, s1)"
      by (cases "transactWriteItems db (ddb w) (ps ! i)")
    let ?w1 = "\<lparr>ddb = s1, calls = calls w @ [TransactWrite (ps ! i) ok s1]\<rparr>"
    have cw: "callTransactWrite db (ps ! i) w = (ok, ?w1)"
      by (simp add: callTransactWrite_def c)
    show ?thesis
    proof (cases ok)
      case False
      then have "unlockLoop db ps lcs i w =
                   (\<lparr>successfulUnlock = False, locksFailedToRelease = concat (drop i lcs)\<rparr>, ?w1)"
        using True cw by (subst unlockLoop.simps) simp
      then show ?thesis using False c by (simp add: dr)
    next
      case ok: True
      have step: "unlockLoop db ps lcs i w = unlockLoop db ps lcs (Suc i) ?w1"
        using True cw ok by (subst unlockLoop.simps) simp
      from "1.IH"[OF True cw[symmetric]] ok
      have ih: "calls (snd (unlockLoop db ps lcs (Suc i) ?w1)) =
                  calls ?w1 @ submitInTurn db (ddb ?w1) (drop (Suc i) ps) \<and>
                fst (unlockLoop db ps lcs (Suc i) ?w1) =
                  (if list_all answerOf (submitInTurn db (ddb ?w1) (drop (Suc i) ps))
                   then \<lparr>successfulUnlock = True, locksFailedToRelease = []\<rparr>
                   else \<lparr>successfulUnlock = False,
                         locksFailedToRelease =
                           concat (drop (Suc i + length (submitInTurn db (ddb ?w1) (drop (Suc i) ps)) - 1) lcs)\<rparr>)"
        by simp
      show ?thesis
        using ih ok c by (simp add: step dr)
    qed
  qed
qed


text \<open>
  C7: the unlock phase cuts the lock set into chunks of at most 25 and submits the chunks
  strictly in turn. The chunks split into those whose batch succeeded (\<open>pre\<close>) and the
  rest (\<open>post\<close>): only the first chunk of \<open>post\<close> is submitted after \<open>pre\<close>, its batch
  fails, and every lock of \<open>post\<close> (the failing chunk and all chunks after it, which are
  never tried) is reported in \<open>locksFailedToRelease\<close> with \<open>successfulUnlock\<close> false;
  when every chunk succeeds \<open>post\<close> is empty and so is \<open>locksFailedToRelease\<close>.
\<close>

theorem unlock_chunks_failure_report:
  "\<exists>pre post.
     chunkArray lockedItems MAX_TRANSACTION_SIZE = pre @ post \<and>
     concat (pre @ post) = lockedItems \<and>
     (\<forall>c\<in>set (pre @ post). c \<noteq> [] \<and> length c \<le> 25) \<and>
     calls (snd (unlockItems svc lockedItems rollBack w)) =
       calls w @ submitInTurn (dynamoDb svc) (ddb w)
                   (map (map (unlockRequest rollBack)) (pre @ take 1 post)) \<and>
     map answerOf (submitInTurn (dynamoDb svc) (ddb w)
                     (map (map (unlockRequest rollBack)) (pre @ take 1 post))) =
       replicate (length pre) True @ replicate (length (take 1 post)) False \<and>
     fst (unlockItems svc lockedItems rollBack w) =
       \<lparr>successfulUnlock = (post = []), locksFailedToRelease = concat post\<rparr>"
proof -
  let ?chunks = "chunkArray lockedItems MAX_TRANSACTION_SIZE"
  let ?g = "map (unlockRequest rollBack)"
  let ?ps = "map ?g ?chunks"
  let ?log = "submitInTurn (dynamoDb svc) (ddb w) ?ps"
  have ps: "chunkArray (map (unlockRequest rollBack) lockedItems) MAX_TRANSACTION_SIZE = ?ps"
    by (rule chunkArray_map)
  have empty: "chunkArray ([] :: ItemRequest list) MAX_TRANSACTION_SIZE = []"
    by (simp add: chunkArray.simps)
  have run: "unlockItems svc lockedItems rollBack w = unlockLoop (dynamoDb svc) ?ps ?chunks 0 w"
  proof (cases "lockedItems = []")
    case True
    then show ?thesis
      by (simp add: unlockItems_def empty unlockLoop.simps)
  next
    case False
    then show ?thesis by (simp add: unlockItems_def Let_def ps)
  qed
  from unlockLoop_log[of "dynamoDb svc" ?ps ?chunks 0 w]
  have log: "calls (snd (unlockItems svc lockedItems rollBack w)) = calls w @ ?log"
    and res: "fst (unlockItems svc lockedItems rollBack w) =
      (if list_all answerOf ?log
       then \<lparr>successfulUnlock = True, locksFailedToRelease = []\<rparr>
       else \<lparr>successfulUnlock = False,
             locksFailedToRelease = concat (drop (length ?log - 1) ?chunks)\<rparr>)"
    by (simp_all add: run)
  from submitInTurn_shape[of ?ps "dynamoDb svc" "ddb w"] obtain n where
    n: "n \<le> length ?ps"
    and cut: "?log = submitInTurn (dynamoDb svc) (ddb w) (take (Suc n) ?ps)"
    and ans: "map answerOf ?log = replicate n True @ replicate (min 1 (length ?ps - n)) False"
    and reqs: "map requestsOf ?log = take (Suc n) ?ps"
    by blast
  let ?pre = "take n ?chunks"
  let ?post = "drop n ?chunks"
  have tk: "take (Suc n) ?ps = map ?g (?pre @ take 1 ?post)"
    by (simp add: take_map take_Suc_conv_app_nth take_drop
          flip: take_add[of n 1, simplified])
  have 1: "?chunks = ?pre @ ?post" by simp
  have 2: "concat (?pre @ ?post) = lockedItems"
    by (simp add: concat_chunkArray MAX_TRANSACTION_SIZE_def)
  have 3: "\<forall>c\<in>set (?pre @ ?post). c \<noteq> [] \<and> length c \<le> 25"
    using chunkArray_bounds[of _ lockedItems MAX_TRANSACTION_SIZE]
    by (simp add: MAX_TRANSACTION_SIZE_def)
  have 4: "calls (snd (unlockItems svc lockedItems rollBack w)) =
       calls w @ submitInTurn (dynamoDb svc) (ddb w) (map ?g (?pre @ take 1 ?post))"
    using log cut tk by simp
  have lp: "length ?pre = n" using n by simp
  have lt: "length (take 1 ?post) = min 1 (length ?ps - n)" by simp
  have 5: "map answerOf (submitInTurn (dynamoDb svc) (ddb w) (map ?g (?pre @ take 1 ?post))) =
       replicate (length ?pre) True @ replicate (length (take 1 ?post)) False"
    using ans cut tk lp lt by simp
  have len: "length ?log = n + min 1 (length ?ps - n)"
    using arg_cong[OF ans, of length] by simp
  have all: "list_all answerOf ?log \<longleftrightarrow> ?post = []"
  proof -
    have "list_all answerOf ?log \<longleftrightarrow> list_all (\<lambda>b. b) (map answerOf ?log)"
      by (simp add: list_all_iff)
    also have "\<dots> \<longleftrightarrow> min 1 (length ?ps - n) = 0"
      unfolding ans by (cases "min 1 (length ?ps - n)") (auto simp: list_all_iff)
    also have "\<dots> \<longleftrightarrow> ?post = []" using n by auto
    finally show ?thesis .
  qed
  have 6: "fst (unlockItems svc lockedItems rollBack w) =
       \<lparr>successfulUnlock = (?post = []), locksFailedToRelease = concat ?post\<rparr>"
  proof (cases "?post = []")
    case True
    then show ?thesis using res all by simp
  next
    case False
    then have "n < length ?ps" by simp
    then have "length ?log - 1 = n" using len by simp
    then show ?thesis using res all False by simp
  qed
  from 1 2 3 4 5 6 show ?thesis by blast
qed

lemma sample_unlock_26:
  "map length (chunkArray (sampleLocks 26) MAX_TRANSACTION_SIZE) = [25, 1]"
  "fst (unlockItems (countingService 0) (sampleLocks 26) True sampleWorld) =
     \<lparr>successfulUnlock = False, locksFailedToRelease = sampleLocks 26\<rparr>"
  "map requestsOf (calls (snd (unlockItems (countingService 0) (sampleLocks 26) True sampleWorld))) =
     [map (unlockRequest True) (take 25 (sampleLocks 26))]"
  "fst (unlockItems (countingService 1) (sampleLocks 26) True sampleWorld) =
     \<lparr>successfulUnlock = False, locksFailedToRelease = drop 25 (sampleLocks 26)\<rparr>"
  "fst (unlockItems (countingService 2) (sampleLocks 26) True sampleWorld) =
     \<lparr>successfulUnlock = True, locksFailedToRelease = []\<rparr>"
  by code_simp+

theorem unlock_chunks_failure_report_witness:
  "map length (chunkArray (sampleLocks 26) MAX_TRANSACTION_SIZE) = [25, 1] \<and>
   fst (unlockItems (countingService 0) (sampleLocks 26) True sampleWorld) =
     \<lparr>successfulUnlock = False, locksFailedToRelease = sampleLocks 26\<rparr> \<and>
   map requestsOf (calls (snd (unlockItems (countingService 0) (sampleLocks 26) True sampleWorld))) =
     [map (unlockRequest True) (take 25 (sampleLocks 26))] \<and>
   fst (unlockItems (countingService 1) (sampleLocks 26) True sampleWorld) =
     \<lparr>successfulUnlock = False, locksFailedToRelease = drop 25 (sampleLocks 26)\<rparr> \<and>
   fst (unlockItems (countingService 2) (sampleLocks 26) True sampleWorld) =
     \<lparr>successfulUnlock = True, locksFailedToRelease = []\<rparr>"
proof -
  from unlock_chunks_failure_report[of "sampleLocks 26" "countingService 0" True sampleWorld]
  obtain pre post where
    split: "chunkArray (sampleLocks 26) MAX_TRANSACTION_SIZE = pre @ post"
    and whole: "concat (pre @ post) = sampleLocks 26"
    and res: "fst (unlockItems (countingService 0) (sampleLocks 26) True sampleWorld) =
                \<lparr>successfulUnlock = (post = []), locksFailedToRelease = concat post\<rparr>"
    and ans: "map answerOf
                (submitInTurn (dynamoDb (countingService 0)) (ddb sampleWorld)
                   (map (map (unlockRequest True)) (pre @ take 1 post))) =
              replicate (length pre) True @ replicate (length (take 1 post)) False"
    by blast
  have "pre = []"
  proof (cases pre)
    case Nil
    then show ?thesis .
  next
    case (Cons c cs)
    then show ?thesis
      using ans by (simp add: countingService_def countingClient_def sampleWorld_def)
  qed
  then have "fst (unlockItems (countingService 0) (sampleLocks 26) True sampleWorld) =
               \<lparr>successfulUnlock = False, locksFailedToRelease = sampleLocks 26\<rparr>"
    using res whole split sample_unlock_26(1) by auto
  then show ?thesis using sample_unlock_26 by simp
qed

lemma submitInTurn_isWrite: "list_all isWrite (submitInTurn db s ps)"
  by (induction ps arbitrary: s) (auto split: prod.splits)

section \<open>Properties of the lock phase\<close>

lemma lockStep_foldl:
  "foldl lockStep acc ps =
     (fst acc @ concat (map (\<lambda>p. case snd p of Found res \<Rightarrow> [lockedItemOf (fst p) res] | _ \<Rightarrow> []) ps),
      snd acc @ concat (map (\<lambda>p. case snd p of Found res \<Rightarrow> [addLockRequestOf res] | _ \<Rightarrow> []) ps))"
  by (induction ps arbitrary: acc) (auto simp: lockStep_def split: lookup.splits)

lemma zip_map_same: "zip (map f xs) (map g xs) = map (\<lambda>x. (f x, g x)) xs"
  by (induction xs) auto

lemma zip_same_map: "zip xs (map g xs) = map (\<lambda>x. (x, g x)) xs"
  by (induction xs) auto

lemma concat_map_singleton: "concat (map (\<lambda>x. [f x]) xs) = map f xs"
  by (induction xs) auto

lemma lockStep_allFound_from:
  "\<forall>r\<in>set rs. \<exists>res. look r = Found res \<Longrightarrow>
   foldl lockStep acc (zip rs (map look rs)) =
     (fst acc @ map (\<lambda>r. lockedItemOf r (foundOf (look r))) rs,
      snd acc @ map (\<lambda>r. addLockRequestOf (foundOf (look r))) rs)"
  by (induction rs arbitrary: acc) (auto simp: lockStep_def foundOf_def)

lemma lockStep_allFound:
  "\<forall>r\<in>set rs. \<exists>res. look r = Found res \<Longrightarrow>
   foldl lockStep ([], []) (zip rs (map look rs)) =
     (map (\<lambda>r. lockedItemOf r (foundOf (look r))) rs,
      map (\<lambda>r. addLockRequestOf (foundOf (look r))) rs)"
  by (simp add: lockStep_allFound_from)

subsection \<open>The four ways out of the lock phase\<close>

lemma lockItems_tooMany:
  "dynamoDbMaxBatchSize < length (filter (\<lambda>r. rq_operation r \<noteq> Create) requests) \<Longrightarrow>
   lockItems svc requests w =
     (Inr \<lparr>successfulLock = False, lock_errorType = Some SYSTEM_ERROR,
           lock_errorMessage = Some ''Cannot lock more than 25 items'',
           lock_lockedItems = []\<rparr>, w)"
  by (simp add: lockItems_def Let_def)

lemma lockItems_lookupFailed:
  assumes "length (filter (\<lambda>r. rq_operation r \<noteq> Create) requests) \<le> dynamoDbMaxBatchSize"
    and "\<exists>r\<in>set requests. rq_operation r \<noteq> Create \<and>
           getMostRecentResource (dynamoDb svc) (ddb w) (rq_resourceType r) (rq_id r) = Failed"
  shows "lockItems svc requests w = (Inl LookupFailed, w)"
proof -
  have "Failed \<in> (\<lambda>r. getMostRecentResource (dynamoDb svc) (ddb w) (rq_resourceType r) (rq_id r)) `
           {r \<in> set requests. rq_operation r \<noteq> Create}"
    using assms(2) by force
  then show ?thesis
    using assms(1) by (simp add: lockItems_def Let_def o_def)
qed

lemma lockItems_notFound:
  assumes "length (filter (\<lambda>r. rq_operation r \<noteq> Create) requests) \<le> dynamoDbMaxBatchSize"
    and "\<forall>r\<in>set requests. rq_operation r \<noteq> Create \<longrightarrow>
           getMostRecentResource (dynamoDb svc) (ddb w) (rq_resourceType r) (rq_id r) \<noteq> Failed"
    and "\<exists>r\<in>set requests. rq_operation r \<noteq> Create \<and>
           getMostRecentResource (dynamoDb svc) (ddb w) (rq_resourceType r) (rq_id r) = NotFound"
  shows "lockItems svc requests w =
     (Inr \<lparr>successfulLock = False, lock_errorType = Some USER_ERROR,
           lock_errorMessage =
             Some (''Failed to find resources: '' @
                   joinComma (map (\<lambda>r. rq_resourceType r @ ''/'' @ rq_id r)
                     (filter (\<lambda>r. rq_operation r \<noteq> Create \<and>
                                  getMostRecentResource (dynamoDb svc) (ddb w)
                                    (rq_resourceType r) (rq_id r) = NotFound) requests))),
           lock_lockedItems = []\<rparr>, w)"
proof -
  let ?look = "\<lambda>r. getMostRecentResource (dynamoDb svc) (ddb w) (rq_resourceType r) (rq_id r)"
  let ?nc = "filter (\<lambda>r. rq_operation r \<noteq> Create) requests"
  let ?item = "\<lambda>request. \<lparr>lk_id = rq_id request, lk_vid = None,
                             lk_resourceType = rq_resourceType request,
                             lk_operation = rq_operation request,
                             lk_isOriginalUpdateItem = None\<rparr>"
  have nf: "Failed \<notin> ?look ` {r \<in> set requests. rq_operation r \<noteq> Create}"
    using assms(2) by force
  have ids: "map (\<lambda>p. lk_resourceType (fst p) @ ''/'' @ lk_id (fst p))
               (filter (\<lambda>p. snd p = NotFound)
                  (zip (map ?item ?nc)
                     (map (\<lambda>itemToLock. getMostRecentResource (dynamoDb svc) (ddb w)
                              (lk_resourceType itemToLock) (lk_id itemToLock)) (map ?item ?nc)))) =
             map (\<lambda>r. rq_resourceType r @ ''/'' @ rq_id r)
               (filter (\<lambda>r. rq_operation r \<noteq> Create \<and> ?look r = NotFound) requests)"
    by (simp add: zip_map_same filter_map o_def conj_commute)
  have ne: "filter (\<lambda>r. rq_operation r \<noteq> Create \<and> ?look r = NotFound) requests \<noteq> []"
    using assms(3) by (auto simp: filter_empty_conv)
  show ?thesis
    using assms(1) nf ne
    unfolding lockItems_def Let_def ids
    by (simp add: o_def)
qed

lemma lockItems_allFound:
  assumes "length (filter (\<lambda>r. rq_operation r \<noteq> Create) requests) \<le> dynamoDbMaxBatchSize"
    and "\<forall>r\<in>set requests. rq_operation r \<noteq> Create \<longrightarrow>
           (\<exists>res. getMostRecentResource (dynamoDb svc) (ddb w) (rq_resourceType r) (rq_id r) =
                    Found res)"
  shows "lockItems svc requests w =
     (if filter (\<lambda>r. rq_operation r \<noteq> Create) requests \<noteq> [] then
        (case callTransactWrite (dynamoDb svc)
                (map (\<lambda>r. addLockRequestOf (foundOf (getMostRecentResource (dynamoDb svc) (ddb w)
                                                         (rq_resourceType r) (rq_id r))))
                   (filter (\<lambda>r. rq_operation r \<noteq> Create) requests)) w of
           (ok, w1) \<Rightarrow>
             if ok then
               (Inr \<lparr>successfulLock = True, lock_errorType = None, lock_errorMessage = None,
                     lock_lockedItems =
                       map (\<lambda>r. lockedItemOf r (foundOf (getMostRecentResource (dynamoDb svc)
                                    (ddb w) (rq_resourceType r) (rq_id r))))
                         (filter (\<lambda>r. rq_operation r \<noteq> Create) requests)\<rparr>, w1)
             else
               (Inr \<lparr>successfulLock = False, lock_errorType = Some SYSTEM_ERROR,
                     lock_errorMessage =
                       Some (''Failed to lock resources for transaction. Please try again after ''
                             @ lockDurationSeconds svc @ '' seconds.''),
                     lock_lockedItems = []\<rparr>, w1))
      else (Inr \<lparr>successfulLock = True, lock_errorType = None, lock_errorMessage = None,
                 lock_lockedItems = []\<rparr>, w))"
proof -
  let ?look = "\<lambda>r. getMostRecentResource (dynamoDb svc) (ddb w) (rq_resourceType r) (rq_id r)"
  let ?nc = "filter (\<lambda>r. rq_operation r \<noteq> Create) requests"
  let ?item = "\<lambda>request. \<lparr>lk_id = rq_id request, lk_vid = None,
                             lk_resourceType = rq_resourceType request,
                             lk_operation = rq_operation request,
                             lk_isOriginalUpdateItem = None\<rparr>"
  have found: "\<forall>r\<in>set ?nc. \<exists>res. ?look r = Found res"
    using assms(2) by simp
  have resp: "map (\<lambda>itemToLock. getMostRecentResource (dynamoDb svc) (ddb w)
                      (lk_resourceType itemToLock) (lk_id itemToLock)) (map ?item ?nc) =
              map ?look ?nc"
    by (simp add: o_def)
  have nf: "Failed \<notin> set (map ?look ?nc)"
    using found by auto
  have nn: "filter (\<lambda>p. snd p = NotFound) (zip (map ?item ?nc) (map ?look ?nc)) = []"
    using found by (auto simp: filter_empty_conv zip_map_same)
  have len: "\<not> dynamoDbMaxBatchSize < length (map ?item ?nc)"
    using assms(1) by simp
  show ?thesis
    unfolding lockItems_def Let_def resp
    by (simp only: len nf nn if_False list.map lockStep_allFound[OF found] prod.case
          append_Nil map_is_Nil_conv simp_thms split: prod.splits)
qed

subsection \<open>The lock batch on the table\<close>

lemma statusAt_upd:
  "statusAt (t((i, v) \<mapsto> it)) j u =
     (if j = i \<and> u = v then Some (item_documentStatus it) else statusAt t j u)"
  by (simp add: statusAt_def)

lemma applyWrite_lock:
  "applyWrite t (UpdateDocumentStatus (Some AVAILABLE) LOCKED i vo) = Some t1 \<longleftrightarrow>
   (\<exists>v it. vo = Some v \<and> t (i, v) = Some it \<and> item_documentStatus it = AVAILABLE \<and>
           t1 = t((i, v) \<mapsto> it\<lparr>item_documentStatus := LOCKED\<rparr>))"
  by (cases vo) (auto split: option.splits)

lemma applyWrites_locks:
  "applyWrites t (map (\<lambda>k. UpdateDocumentStatus (Some AVAILABLE) LOCKED (fst k) (snd k)) ks) = Some t1 \<Longrightarrow>
   (\<forall>k\<in>set ks. \<exists>v. snd k = Some v \<and> statusAt t (fst k) v = Some AVAILABLE) \<and>
   distinct ks \<and>
   (\<forall>i v. statusAt t1 i v = (if (i, Some v) \<in> set ks then Some LOCKED else statusAt t i v))"
proof (induction ks arbitrary: t)
  case Nil
  then show ?case by simp
next
  case (Cons k ks)
  from Cons.prems obtain t2 where
    a: "applyWrite t (UpdateDocumentStatus (Some AVAILABLE) LOCKED (fst k) (snd k)) = Some t2"
    and b: "applyWrites t2
              (map (\<lambda>k. UpdateDocumentStatus (Some AVAILABLE) LOCKED (fst k) (snd k)) ks) = Some t1"
    by (auto split: option.splits)
  from a obtain v it where
    k: "snd k = Some v" "t (fst k, v) = Some it" "item_documentStatus it = AVAILABLE"
    and t2: "t2 = t((fst k, v) \<mapsto> it\<lparr>item_documentStatus := LOCKED\<rparr>)"
    unfolding applyWrite_lock by blast
  have st2: "\<And>j u. statusAt t2 j u = (if j = fst k \<and> u = v then Some LOCKED else statusAt t j u)"
    by (simp add: t2 statusAt_upd)
  from Cons.IH[OF b] have
    ih1: "\<forall>k'\<in>set ks. \<exists>v'. snd k' = Some v' \<and> statusAt t2 (fst k') v' = Some AVAILABLE"
    and ih2: "distinct ks"
    and ih3: "\<forall>i u. statusAt t1 i u = (if (i, Some u) \<in> set ks then Some LOCKED else statusAt t2 i u)"
    by blast+
  have keq: "k = (fst k, Some v)" using k(1) by (cases k) simp
  have notin: "k \<notin> set ks"
  proof
    assume "k \<in> set ks"
    with ih1 k(1) have "statusAt t2 (fst k) v = Some AVAILABLE" by force
    then show False by (simp add: st2)
  qed
  have 1: "\<forall>k'\<in>set (k # ks). \<exists>v'. snd k' = Some v' \<and> statusAt t (fst k') v' = Some AVAILABLE"
  proof
    fix k' assume "k' \<in> set (k # ks)"
    then consider "k' = k" | "k' \<in> set ks" by auto
    then show "\<exists>v'. snd k' = Some v' \<and> statusAt t (fst k') v' = Some AVAILABLE"
    proof cases
      case 1
      then show ?thesis using k by (simp add: statusAt_def)
    next
      case 2
      with ih1 obtain v' where "snd k' = Some v'" "statusAt t2 (fst k') v' = Some AVAILABLE"
        by blast
      then show ?thesis by (auto simp: st2 split: if_splits)
    qed
  qed
  have 3: "\<forall>i u. statusAt t1 i u =
             (if (i, Some u) \<in> set (k # ks) then Some LOCKED else statusAt t i u)"
  proof (intro allI)
    fix i u
    show "statusAt t1 i u = (if (i, Some u) \<in> set (k # ks) then Some LOCKED else statusAt t i u)"
      using ih3[rule_format, of i u] keq by (auto simp: st2)
  qed
  from 1 notin ih2 3 show ?case by simp
qed

lemma tableTransactWrite_refused_rows:
  "tableTransactWrite t items = (False, t1) \<Longrightarrow> rows t1 = rows t"
  by (auto simp: tableTransactWrite_def Let_def split: if_splits option.splits)

lemma lockBatch_refused:
  assumes "k \<in> set ks"
    and "\<forall>v. snd k = Some v \<longrightarrow> statusAt (rows t) (fst k) v \<noteq> Some AVAILABLE"
  shows "fst (tableTransactWrite t
                (map (\<lambda>k. UpdateDocumentStatus (Some AVAILABLE) LOCKED (fst k) (snd k)) ks)) = False"
proof -
  have "applyWrites (rows t)
          (map (\<lambda>k. UpdateDocumentStatus (Some AVAILABLE) LOCKED (fst k) (snd k)) ks) = None"
  proof (cases "applyWrites (rows t)
          (map (\<lambda>k. UpdateDocumentStatus (Some AVAILABLE) LOCKED (fst k) (snd k)) ks)")
    case None
    then show ?thesis .
  next
    case (Some t1)
    from applyWrites_locks[OF Some] assms show ?thesis by blast
  qed
  then show ?thesis
    by (simp add: tableTransactWrite_def Let_def)
qed

subsection \<open>Missing ids and versions that are not available\<close>

text \<open>
  C5, as the code has it: when at most 25 operations are not creates and no lookup fails
  for a reason other than not-found, and the id of some operation that is not a create is
  not found, the lock phase returns \<open>successfulLock\<close> false with error type
  \<open>USER_ERROR\<close>, a message that lists \<open>resourceType/id\<close> of every missing one in the
  order of the input, and an empty lock set, and it leaves the world as it was: no batch
  is submitted.
\<close>

theorem lock_not_found_aborts:
  assumes "length (filter (\<lambda>r. rq_operation r \<noteq> Create) requests) \<le> 25"
    and "\<forall>r\<in>set requests. rq_operation r \<noteq> Create \<longrightarrow>
           getMostRecentResource (dynamoDb svc) (ddb w) (rq_resourceType r) (rq_id r) \<noteq> Failed"
    and "\<exists>r\<in>set requests. rq_operation r \<noteq> Create \<and>
           getMostRecentResource (dynamoDb svc) (ddb w) (rq_resourceType r) (rq_id r) = NotFound"
  shows "lockItems svc requests w =
     (Inr \<lparr>successfulLock = False, lock_errorType = Some USER_ERROR,
           lock_errorMessage =
             Some (''Failed to find resources: '' @
                   joinComma (map (\<lambda>r. rq_resourceType r @ ''/'' @ rq_id r)
                     (filter (\<lambda>r. rq_operation r \<noteq> Create \<and>
                                  getMostRecentResource (dynamoDb svc) (ddb w)
                                    (rq_resourceType r) (rq_id r) = NotFound) requests))),
           lock_lockedItems = []\<rparr>, w)"
  using assms by (intro lockItems_notFound) (simp_all add: dynamoDbMaxBatchSize_def)

theorem lock_not_found_aborts_witness:
  "lockItems (countingService 0)
     [sampleRequest Delete ''Y'', sampleRequest Create ''N'', sampleRequest Read ''Z'']
     sampleWorld =
   (Inr \<lparr>successfulLock = False, lock_errorType = Some USER_ERROR,
         lock_errorMessage = Some ''Failed to find resources: Patient/Y,Patient/Z'',
         lock_lockedItems = []\<rparr>, sampleWorld)"
  using lock_not_found_aborts
          [of "[sampleRequest Delete ''Y'', sampleRequest Create ''N'', sampleRequest Read ''Z'']"
              "countingService 0" sampleWorld]
  by (simp add: countingService_def countingClient_def sampleRequest_def)

text \<open>
  The claim C5 without the bound: 26 deletes of an id that is not found end in the
  system error of the batch limit, not in the user error.
\<close>

theorem lock_too_many_counterexample:
  "getMostRecentResource (dynamoDb (countingService 0)) (ddb sampleWorld) ''Patient'' ''Y'' = NotFound \<and>
   fst (lockItems (countingService 0) (replicate 26 (sampleRequest Delete ''Y'')) sampleWorld) =
     Inr \<lparr>successfulLock = False, lock_errorType = Some SYSTEM_ERROR,
          lock_errorMessage = Some ''Cannot lock more than 25 items'',
          lock_lockedItems = []\<rparr>"
  by (simp add: lockItems_tooMany dynamoDbMaxBatchSize_def sampleRequest_def
        countingService_def countingClient_def)

text \<open>
  C6, as the code has it, on the table: when at most 25 operations are not creates and
  no lookup fails for another reason, and some operation that is not a create has an id
  that is not found, or a looked-up version whose status is not \<open>AVAILABLE\<close>, the lock
  phase returns \<open>successfulLock\<close> false, holds no lock and changes no row. When an id
  is not found it submits no batch. When every id is found it submits the one batch of
  conditional status writes (from \<open>AVAILABLE\<close> to \<open>LOCKED\<close>), and the store refuses
  that batch as a whole.
\<close>

theorem lock_refused_without_change:
  assumes "length (filter (\<lambda>r. rq_operation r \<noteq> Create) requests) \<le> 25"
    and "\<forall>r\<in>set requests. rq_operation r \<noteq> Create \<longrightarrow>
           look (ddb w) (rq_resourceType r) (rq_id r) \<noteq> Failed"
    and "\<exists>r\<in>set requests. rq_operation r \<noteq> Create \<and>
           (look (ddb w) (rq_resourceType r) (rq_id r) = NotFound \<or>
            (\<exists>res. look (ddb w) (rq_resourceType r) (rq_id r) = Found res \<and>
               (\<forall>v. meta_versionId res = Some v \<longrightarrow>
                    statusAt (rows (ddb w)) (res_id res) v \<noteq> Some AVAILABLE)))"
  shows "\<exists>resp w1.
           lockItems (tableService look budget) requests w = (Inr resp, w1) \<and>
           \<not> successfulLock resp \<and> lock_lockedItems resp = [] \<and>
           rows (ddb w1) = rows (ddb w) \<and>
           (if \<exists>r\<in>set requests. rq_operation r \<noteq> Create \<and>
                  look (ddb w) (rq_resourceType r) (rq_id r) = NotFound
            then w1 = w
            else \<exists>t. calls w1 = calls w @
                   [TransactWrite
                      (map (\<lambda>r. UpdateDocumentStatus (Some AVAILABLE) LOCKED
                                   (res_id (foundOf (look (ddb w) (rq_resourceType r) (rq_id r))))
                                   (meta_versionId
                                      (foundOf (look (ddb w) (rq_resourceType r) (rq_id r)))))
                         (filter (\<lambda>r. rq_operation r \<noteq> Create) requests))
                      False t])"
proof -
  let ?svc = "tableService look budget"
  let ?look = "\<lambda>r. look (ddb w) (rq_resourceType r) (rq_id r)"
  let ?nc = "filter (\<lambda>r. rq_operation r \<noteq> Create) requests"
  have g: "\<And>r. getMostRecentResource (dynamoDb ?svc) (ddb w) (rq_resourceType r) (rq_id r) = ?look r"
    by (simp add: tableService_def tableClient_def)
  have le: "length ?nc \<le> dynamoDbMaxBatchSize"
    using assms(1) by (simp add: dynamoDbMaxBatchSize_def)
  show ?thesis
  proof (cases "\<exists>r\<in>set requests. rq_operation r \<noteq> Create \<and> ?look r = NotFound")
    case True
    have "lockItems ?svc requests w =
     (Inr \<lparr>successfulLock = False, lock_errorType = Some USER_ERROR,
           lock_errorMessage =
             Some (''Failed to find resources: '' @
                   joinComma (map (\<lambda>r. rq_resourceType r @ ''/'' @ rq_id r)
                     (filter (\<lambda>r. rq_operation r \<noteq> Create \<and>
                                  getMostRecentResource (dynamoDb ?svc) (ddb w)
                                    (rq_resourceType r) (rq_id r) = NotFound) requests))),
           lock_lockedItems = []\<rparr>, w)"
      using le assms(2) True by (intro lockItems_notFound) (simp_all add: g)
    then show ?thesis using True by simp
  next
    case False
    have found: "\<forall>r\<in>set requests. rq_operation r \<noteq> Create \<longrightarrow> (\<exists>res. ?look r = Found res)"
    proof (intro ballI impI)
      fix r assume "r \<in> set requests" "rq_operation r \<noteq> Create"
      with False assms(2) have "?look r \<noteq> NotFound" "?look r \<noteq> Failed" by blast+
      then show "\<exists>res. ?look r = Found res" by (cases "?look r") auto
    qed
    from assms(3) False obtain r res where
      r: "r \<in> set requests" "rq_operation r \<noteq> Create" "?look r = Found res"
      and st: "\<forall>v. meta_versionId res = Some v \<longrightarrow>
                 statusAt (rows (ddb w)) (res_id res) v \<noteq> Some AVAILABLE"
      by blast
    let ?ks = "map (\<lambda>r. (res_id (foundOf (?look r)), meta_versionId (foundOf (?look r)))) ?nc"
    let ?reqs = "map (\<lambda>r. UpdateDocumentStatus (Some AVAILABLE) LOCKED
                           (res_id (foundOf (?look r))) (meta_versionId (foundOf (?look r)))) ?nc"
    have reqs: "?reqs = map (\<lambda>k. UpdateDocumentStatus (Some AVAILABLE) LOCKED (fst k) (snd k)) ?ks"
      by (simp add: o_def)
    have kin: "(res_id res, meta_versionId res) \<in> set ?ks"
      using r by (force simp: foundOf_def image_iff)
    have no: "fst (tableTransactWrite (ddb w) ?reqs) = False"
      unfolding reqs using kin st by (intro lockBatch_refused[of "(res_id res, meta_versionId res)"]) simp_all
    obtain t where t: "tableTransactWrite (ddb w) ?reqs = (False, t)"
      using no by (cases "tableTransactWrite (ddb w) ?reqs") simp
    have same: "rows t = rows (ddb w)"
      using t by (rule tableTransactWrite_refused_rows)
    have call: "callTransactWrite (dynamoDb ?svc) ?reqs w =
                  (False, \<lparr>ddb = t, calls = calls w @ [TransactWrite ?reqs False t]\<rparr>)"
      by (simp add: callTransactWrite_def tableService_def tableClient_def t)
    have ne: "?nc \<noteq> []" using r by (auto simp: filter_empty_conv)
    let ?resp = "\<lparr>successfulLock = False, lock_errorType = Some SYSTEM_ERROR,
                  lock_errorMessage =
                    Some (''Failed to lock resources for transaction. Please try again after ''
                          @ lockDurationSeconds ?svc @ '' seconds.''),
                  lock_lockedItems = []\<rparr>"
    let ?w1 = "\<lparr>ddb = t, calls = calls w @ [TransactWrite ?reqs False t]\<rparr>"
    have 1: "lockItems ?svc requests w = (Inr ?resp, ?w1)"
      using lockItems_allFound[of requests ?svc w, OF le] found ne call
      by (simp add: g addLockRequestOf_def)
    have 2: "\<not> successfulLock ?resp" "lock_lockedItems ?resp = []" by simp_all
    have 3: "rows (ddb ?w1) = rows (ddb w)" using same by simp
    have 4: "\<exists>t. calls ?w1 = calls w @ [TransactWrite ?reqs False t]" by simp
    show ?thesis
      apply (rule exI[of _ ?resp], rule exI[of _ ?w1])
      apply (subst if_not_P[OF False])
      using 1 2 3 4 by blast
  qed
qed

theorem lock_refused_without_change_witness:
  "(\<exists>resp w1.
      lockItems (tableService (sampleLookup [sampleResource ''X'' ''1'']) 26000)
        [sampleRequest Read ''X''] lockedX = (Inr resp, w1) \<and>
      \<not> successfulLock resp \<and> lock_lockedItems resp = [] \<and>
      rows (ddb w1) = rows (ddb lockedX) \<and>
      (\<exists>t. calls w1 =
         [TransactWrite [UpdateDocumentStatus (Some AVAILABLE) LOCKED ''X'' (Some ''1'')] False t])) \<and>
   (\<exists>resp.
      lockItems (tableService (sampleLookup [sampleResource ''X'' ''1'']) 26000)
        [sampleRequest Delete ''Q''] lockedX = (Inr resp, lockedX) \<and>
      \<not> successfulLock resp \<and> lock_lockedItems resp = [])"
proof -
  have l1: "sampleLookup [sampleResource ''X'' ''1''] (ddb lockedX) ''Patient'' ''X'' =
              Found (sampleResource ''X'' ''1'')"
    and l2: "sampleLookup [sampleResource ''X'' ''1''] (ddb lockedX) ''Patient'' ''Q'' = NotFound"
    and st: "statusAt (rows (ddb lockedX)) ''X'' ''1'' = Some LOCKED"
    and c: "calls lockedX = []"
    by (simp_all add: sampleLookup_def sampleResource_def lockedX_def sampleTable_def
          statusAt_def sampleRow_def)
  have r: "rq_operation (sampleRequest Read ''X'') = Read"
          "rq_resourceType (sampleRequest Read ''X'') = ''Patient''"
          "rq_id (sampleRequest Read ''X'') = ''X''"
          "rq_operation (sampleRequest Delete ''Q'') = Delete"
          "rq_resourceType (sampleRequest Delete ''Q'') = ''Patient''"
          "rq_id (sampleRequest Delete ''Q'') = ''Q''"
    by (simp_all add: sampleRequest_def)
  have f: "res_id (sampleResource ''X'' ''1'') = ''X''"
          "meta_versionId (sampleResource ''X'' ''1'') = Some ''1''"
    by (simp_all add: sampleResource_def)
  from lock_refused_without_change
         [of "[sampleRequest Read ''X'']" "sampleLookup [sampleResource ''X'' ''1'']" lockedX 26000]
  have 1: "\<exists>resp w1.
      lockItems (tableService (sampleLookup [sampleResource ''X'' ''1'']) 26000)
        [sampleRequest Read ''X''] lockedX = (Inr resp, w1) \<and>
      \<not> successfulLock resp \<and> lock_lockedItems resp = [] \<and>
      rows (ddb w1) = rows (ddb lockedX) \<and>
      (\<exists>t. calls w1 =
         [TransactWrite [UpdateDocumentStatus (Some AVAILABLE) LOCKED ''X'' (Some ''1'')] False t])"
    by (simp add: l1 st c r f foundOf_def)
  from lock_refused_without_change
         [of "[sampleRequest Delete ''Q'']" "sampleLookup [sampleResource ''X'' ''1'']" lockedX 26000]
  have 2: "\<exists>resp.
      lockItems (tableService (sampleLookup [sampleResource ''X'' ''1'']) 26000)
        [sampleRequest Delete ''Q''] lockedX = (Inr resp, lockedX) \<and>
      \<not> successfulLock resp \<and> lock_lockedItems resp = []"
    by (simp add: l2 r)
  from 1 2 show ?thesis by blast
qed


text \<open>
  The claim C6 as stated: the looked-up version of X is \<open>LOCKED\<close>, and the lock phase
  still submits its status-update batch (which the store then refuses).
\<close>

theorem lock_batch_submitted_counterexample:
  "sampleLookup [sampleResource ''X'' ''1''] (ddb lockedX) ''Patient'' ''X'' =
     Found (sampleResource ''X'' ''1'') \<and>
   statusAt (rows (ddb lockedX)) ''X'' ''1'' = Some LOCKED \<and>
   map requestsOf (calls (snd (lockItems
       (tableService (sampleLookup [sampleResource ''X'' ''1'']) 26000)
       [sampleRequest Read ''X''] lockedX))) =
     [[UpdateDocumentStatus (Some AVAILABLE) LOCKED ''X'' (Some ''1'')]]"
  by code_simp

section \<open>Operations the staging helper does not know\<close>

lemma length_filter_enumerate:
  "length (filter (\<lambda>(j, r). P r) (enumerate k xs)) = length (filter P xs)"
  by (induction xs arbitrary: k) auto

lemma staged_counts:
  "length (filter (\<lambda>r. rq_operation r = Delete) rs) +
   length (filter (\<lambda>r. rq_operation r = Create) rs) +
   length (filter (\<lambda>r. rq_operation r = Update) rs) +
   length (filter (\<lambda>r. rq_operation r = Read) rs) =
   length (filter (\<lambda>r. rq_operation r \<in> {Create, Read, Update, Delete}) rs)"
  by (induction rs) auto

lemma sample_patch_transaction:
  "fst (transaction (tableService (sampleLookup [sampleResource ''X'' ''1'']) 26000)
          sampleOutside (\<lambda>k. 1000) 0 [sampleRequest (OtherOperation ''patch'') ''X'']
          availableX) =
     Inr \<lparr>success = True, message = ''Successfully committed requests to DB'',
          batchReadWriteResponses = [], errorType = None\<rparr>"
  by code_simp

text \<open>
  C10: a request whose operation is none of create, update, delete and read leaves the
  staging state as it was: it adds no store request, no envelope and no lock record. So
  the envelopes (and the store requests) are as many as the requests with one of the
  four operations, and the lock records as many as the creates and updates. A
  transaction of one \<open>patch\<close> on an available resource reports success with no envelope.
\<close>

theorem unknown_operation_skipped:
  "stageRequest out idToVersionId k (r\<lparr>rq_operation := OtherOperation n\<rparr>) acc = acc \<and>
   length (newStagingResponses (generateStagingRequests out requests idToVersionId)) =
     length (filter (\<lambda>r. rq_operation r \<in> {Create, Read, Update, Delete}) requests) \<and>
   length (deleteRequests (generateStagingRequests out requests idToVersionId)) +
   length (createRequests (generateStagingRequests out requests idToVersionId)) +
   length (updateRequests (generateStagingRequests out requests idToVersionId)) +
   length (readRequests (generateStagingRequests out requests idToVersionId)) =
     length (filter (\<lambda>r. rq_operation r \<in> {Create, Read, Update, Delete}) requests) \<and>
   length (newLocks (generateStagingRequests out requests idToVersionId)) =
     length (filter (\<lambda>r. rq_operation r = Create \<or> rq_operation r = Update) requests) \<and>
   fst (transaction (tableService (sampleLookup [sampleResource ''X'' ''1'']) 26000)
          sampleOutside (\<lambda>k. 1000) 0 [sampleRequest (OtherOperation ''patch'') ''X'']
          availableX) =
     Inr \<lparr>success = True, message = ''Successfully committed requests to DB'',
          batchReadWriteResponses = [], errorType = None\<rparr>"
proof -
  have 1: "stageRequest out idToVersionId k (r\<lparr>rq_operation := OtherOperation n\<rparr>) acc = acc"
    by (simp add: stageRequest_def)
  have 2: "length (newStagingResponses (generateStagingRequests out requests idToVersionId)) =
     length (filter (\<lambda>r. rq_operation r \<in> {Create, Read, Update, Delete}) requests)"
    unfolding generateStagingRequests_def stagingLoop_newStagingResponses
    using length_filter_enumerate
            [of "\<lambda>r. rq_operation r \<in> {Create, Read, Update, Delete}" 0 requests]
    by simp
  have 3: "length (deleteRequests (generateStagingRequests out requests idToVersionId)) +
   length (createRequests (generateStagingRequests out requests idToVersionId)) +
   length (updateRequests (generateStagingRequests out requests idToVersionId)) +
   length (readRequests (generateStagingRequests out requests idToVersionId)) =
     length (filter (\<lambda>r. rq_operation r \<in> {Create, Read, Update, Delete}) requests)"
    unfolding generateStagingRequests_def stagingLoop_deleteRequests stagingLoop_createRequests
      stagingLoop_updateRequests stagingLoop_readRequests
    using staged_counts[of requests]
    by (simp add: length_filter_enumerate)
  have 4: "length (newLocks (generateStagingRequests out requests idToVersionId)) =
     length (filter (\<lambda>r. rq_operation r = Create \<or> rq_operation r = Update) requests)"
    unfolding generateStagingRequests_def stagingLoop_newLocks
    using length_filter_enumerate
            [of "\<lambda>r. rq_operation r = Create \<or> rq_operation r = Update" 0 requests]
    by simp
  from 1 2 3 4 sample_patch_transaction show ?thesis by blast
qed

section \<open>The status invariant across a transaction\<close>

subsection \<open>What a batch can make available\<close>

lemma oneAvailable_single: "oneAvailable t = single (avail t)"
  by (simp add: oneAvailable_def single_def avail_def)

lemma single_subset: "single U \<Longrightarrow> S \<subseteq> U \<Longrightarrow> single S"
  unfolding single_def by blast

lemma applyWrite_avail:
  "applyWrite t r = Some t1 \<Longrightarrow> avail t1 \<subseteq> avail t \<union> makesAvailable r"
  by (cases "(t, r)" rule: applyWrite.cases)
     (auto simp: avail_def statusAt_def bareRow_def split: option.splits if_splits)

lemma applyWrites_avail:
  "applyWrites t rs = Some t1 \<Longrightarrow> avail t1 \<subseteq> avail t \<union> (\<Union>r\<in>set rs. makesAvailable r)"
proof (induction rs arbitrary: t)
  case Nil
  then show ?case by simp
next
  case (Cons r rs)
  from Cons.prems obtain t2 where a: "applyWrite t r = Some t2" and b: "applyWrites t2 rs = Some t1"
    by (auto split: option.splits)
  from applyWrite_avail[OF a] Cons.IH[OF b] show ?case by auto
qed

lemma tableTransactWrite_avail:
  "avail (rows (snd (tableTransactWrite t items))) \<subseteq>
     avail (rows t) \<union> (\<Union>r\<in>set items. makesAvailable r)"
  using applyWrites_avail[of "rows t" items]
  by (auto simp: tableTransactWrite_def Let_def split: option.splits)

lemma tableTransactGet_rows: "rows (snd (tableTransactGet t items)) = rows t"
  by (simp add: tableTransactGet_def Let_def)

lemma within_refl: "avail (rows (ddb w)) \<subseteq> U \<Longrightarrow> within w w U"
  by (simp add: within_def)

lemma within_trans: "within w w1 U \<Longrightarrow> within w1 w2 U \<Longrightarrow> within w w2 U"
  unfolding within_def by (elim conjE exE) (auto)

lemma within_mono: "within w w1 U \<Longrightarrow> U \<subseteq> V \<Longrightarrow> within w w1 V"
  unfolding within_def by blast

lemma within_write:
  assumes "avail (rows (ddb w)) \<union> (\<Union>r\<in>set items. makesAvailable r) \<subseteq> U"
  shows "within w (snd (callTransactWrite (tableClient look) items w)) U"
proof -
  obtain ok s where c: "tableTransactWrite (ddb w) items = (ok, s)"
    by (cases "tableTransactWrite (ddb w) items")
  have "avail (rows s) \<subseteq> U"
    using tableTransactWrite_avail[of "ddb w" items] assms c by auto
  then show ?thesis
    by (simp add: within_def callTransactWrite_def tableClient_def c)
qed

lemma within_get:
  assumes "avail (rows (ddb w)) \<subseteq> U"
  shows "within w (snd (callTransactGet (tableClient look) items w)) U"
proof -
  obtain res s where c: "tableTransactGet (ddb w) items = (res, s)"
    by (cases "tableTransactGet (ddb w) items")
  have "rows s = rows (ddb w)"
    using tableTransactGet_rows[of "ddb w" items] c by simp
  then show ?thesis
    using assms by (simp add: within_def callTransactGet_def tableClient_def c)
qed

lemma rollback_deletes:
  "fst (generateRollbackRequests es) =
     map (\<lambda>e. DeleteParam (rs_id e) (rs_vid e))
       (filter (\<lambda>e. rs_operation e = Create \<or> rs_operation e = Update) es)"
  by (simp add: generateRollbackRequests_def rollback_foldl)

subsection \<open>The unlock phase\<close>

lemma unlockLoop_within:
  assumes "\<forall>p\<in>set ps. \<forall>r\<in>set p. makesAvailable r \<subseteq> U"
    and "avail (rows (ddb w)) \<subseteq> U"
    and "db = tableClient look"
  shows "within w (snd (unlockLoop db ps lcs i w)) U"
  using assms
proof (induction db ps lcs i w rule: unlockLoop.induct)
  case (1 db ps lcs i w)
  show ?case
  proof (cases "i < length ps")
    case False
    then show ?thesis
      using "1.prems"(2) by (subst unlockLoop.simps) (simp add: within_refl)
  next
    case True
    obtain ok w1 where c: "callTransactWrite db (ps ! i) w = (ok, w1)"
      by (cases "callTransactWrite db (ps ! i) w")
    have "(\<Union>r\<in>set (ps ! i). makesAvailable r) \<subseteq> U"
      using "1.prems"(1) True by (meson UN_least nth_mem)
    then have w1: "within w w1 U"
      using within_write[of w "ps ! i" U look] "1.prems"(2,3) c by simp
    then have a1: "avail (rows (ddb w1)) \<subseteq> U" by (simp add: within_def)
    show ?thesis
    proof (cases ok)
      case False
      then show ?thesis using True c w1 by (subst unlockLoop.simps) simp
    next
      case ok: True
      have "within w1 (snd (unlockLoop db ps lcs (Suc i) w1)) U"
        using "1.IH"[OF True c[symmetric]] ok "1.prems"(1,3) a1 by simp
      then have "within w (snd (unlockLoop db ps lcs (Suc i) w1)) U"
        using w1 within_trans by blast
      then show ?thesis using True c ok by (subst unlockLoop.simps) simp
    qed
  qed
qed

lemma chunkArray_subset: "p \<in> set (chunkArray xs n) \<Longrightarrow> set p \<subseteq> set xs"
proof (induction xs n rule: chunkArray.induct)
  case (1 xs n)
  show ?case
  proof (cases "n = 0 \<or> xs = []")
    case True
    then show ?thesis using "1.prems" by (simp add: chunkArray.simps)
  next
    case False
    from "1.prems" have "p = take n xs \<or> p \<in> set (chunkArray (drop n xs) n)"
      using False by (subst (asm) chunkArray.simps) auto
    then show ?thesis
      using False "1.IH" by (auto dest: in_set_takeD in_set_dropD)
  qed
qed

lemma unlockItems_within:
  assumes "avail (rows (ddb w)) \<subseteq> U"
    and "\<forall>l\<in>set locks. makesAvailable (unlockRequest rb l) \<subseteq> U"
  shows "within w (snd (unlockItems (tableService look budget) locks rb w)) U"
proof (cases "locks = []")
  case True
  then show ?thesis using assms(1) by (simp add: unlockItems_def within_refl)
next
  case False
  have "\<forall>p\<in>set (chunkArray (map (unlockRequest rb) locks) MAX_TRANSACTION_SIZE).
          \<forall>r\<in>set p. makesAvailable r \<subseteq> U"
    using assms(2) chunkArray_subset[of _ "map (unlockRequest rb) locks" MAX_TRANSACTION_SIZE]
    by fastforce
  then show ?thesis
    using False assms(1)
    by (simp add: unlockItems_def Let_def tableService_def unlockLoop_within)
qed

subsection \<open>The stage and rollback phases\<close>

lemma editRequests_none_available:
  assumes "r \<in> set (editRequests (generateStagingRequests out requests m))"
  shows "makesAvailable r = {}"
proof -
  have d: "\<And>i v. makesAvailable (UpdateDocumentStatus (Some LOCKED) PENDING_DELETE i v) = {}"
    subgoal for i v by (cases v) simp_all
    done
  have del: "\<forall>x\<in>set (deleteRequests (generateStagingRequests out requests m)). makesAvailable x = {}"
    by (auto simp: generateStagingRequests_def stagingLoop_deleteRequests d)
  have cre: "\<forall>x\<in>set (createRequests (generateStagingRequests out requests m)). makesAvailable x = {}"
    by (auto simp: generateStagingRequests_def stagingLoop_createRequests prepItemForDdbInsert_def)
  have upd: "\<forall>x\<in>set (updateRequests (generateStagingRequests out requests m)). makesAvailable x = {}"
    by (auto simp: generateStagingRequests_def stagingLoop_updateRequests prepItemForDdbInsert_def)
  from assms del cre upd show ?thesis
    unfolding editRequests_def by (metis Un_iff set_append)
qed

lemma stageItems_world:
  "snd (stageItems svc out requests locks w) =
     (let st = generateStagingRequests out requests (idToVersionIdOf locks);
          r1 = (if editRequests st \<noteq> [] then callTransactWrite (dynamoDb svc) (editRequests st) w
                else (True, w))
      in if \<not> fst r1 \<or> readRequests st = [] then snd r1
         else snd (callTransactGet (dynamoDb svc) (readRequests st) (snd r1)))"
proof -
  let ?st = "generateStagingRequests out requests (idToVersionIdOf locks)"
  obtain wrote w1 where r1:
    "(if editRequests ?st \<noteq> [] then callTransactWrite (dynamoDb svc) (editRequests ?st) w
      else (True, w)) = (wrote, w1)"
    by (cases "if editRequests ?st \<noteq> [] then callTransactWrite (dynamoDb svc) (editRequests ?st) w
               else (True, w)")
  obtain res w2 where r2: "callTransactGet (dynamoDb svc) (readRequests ?st) w1 = (res, w2)"
    by (cases "callTransactGet (dynamoDb svc) (readRequests ?st) w1")
  show ?thesis
    unfolding stageItems_def Let_def r1 prod.case fst_conv snd_conv r2
    by (simp split: option.splits sum.splits prod.splits)
qed

lemma stageItems_within:
  assumes "avail (rows (ddb w)) \<subseteq> U"
  shows "within w (snd (stageItems (tableService look budget) out requests locks w)) U"
proof -
  let ?db = "tableClient look"
  let ?st = "generateStagingRequests out requests (idToVersionIdOf locks)"
  let ?r1 = "if editRequests ?st \<noteq> [] then callTransactWrite ?db (editRequests ?st) w
             else (True, w)"
  have "(\<Union>r\<in>set (editRequests ?st). makesAvailable r) = {}"
    using editRequests_none_available[of _ out requests "idToVersionIdOf locks"] by blast
  then have w1: "within w (snd ?r1) U"
    using within_write[of w "editRequests ?st" U look] assms by (simp add: within_refl)
  then have a1: "avail (rows (ddb (snd ?r1))) \<subseteq> U" by (simp only: within_def)
  have w2: "within w (snd (callTransactGet ?db (readRequests ?st) (snd ?r1))) U"
    by (rule within_trans[OF w1 within_get[OF a1]])
  have db: "dynamoDb (tableService look budget) = ?db" by (simp add: tableService_def)
  show ?thesis
  proof (cases "\<not> fst ?r1 \<or> readRequests ?st = []")
    case True
    have eq: "snd (stageItems (tableService look budget) out requests locks w) = snd ?r1"
      unfolding stageItems_world db Let_def using True by (rule if_P)
    show ?thesis by (simp only: eq w1)
  next
    case False
    have eq: "snd (stageItems (tableService look budget) out requests locks w) =
                snd (callTransactGet ?db (readRequests ?st) (snd ?r1))"
      unfolding stageItems_world db Let_def using False by (rule if_not_P)
    show ?thesis by (simp only: eq w2)
  qed
qed

lemma rollbackItems_world:
  "snd (rollbackItems svc responses locks w) =
     snd (callTransactWrite (dynamoDb svc) (fst (generateRollbackRequests responses)) w)"
  by (simp add: rollbackItems_def Let_def split: prod.splits)

lemma rollbackItems_within:
  assumes "avail (rows (ddb w)) \<subseteq> U"
  shows "within w (snd (rollbackItems (tableService look budget) responses locks w)) U"
proof -
  have "(\<Union>r\<in>set (fst (generateRollbackRequests responses)). makesAvailable r) = {}"
    by (auto simp: rollback_deletes)
  then show ?thesis
    using within_write[of w "fst (generateRollbackRequests responses)" U look] assms
    by (simp add: rollbackItems_world tableService_def)
qed

subsection \<open>The lock phase\<close>

lemma tableTransactWrite_ok:
  "tableTransactWrite t items = (True, s) \<Longrightarrow> applyWrites (rows t) items = Some (rows s)"
  by (auto simp: tableTransactWrite_def Let_def split: if_splits option.splits)

lemma lockItems_table:
  fixes look budget requests w
  defines "nc \<equiv> filter (\<lambda>r. rq_operation r \<noteq> Create) requests"
    and "lk \<equiv> \<lambda>r. look (ddb w) (rq_resourceType r) (rq_id r)"
  defines "key \<equiv> \<lambda>r. (res_id (foundOf (lk r)), meta_versionId (foundOf (lk r)))"
  assumes run: "lockItems (tableService look budget) requests w = (res, w1)"
  shows "(\<forall>e. res = Inl e \<longrightarrow> w1 = w) \<and>
         (\<forall>resp. res = Inr resp \<longrightarrow>
            (if successfulLock resp then
               lock_lockedItems resp = map (\<lambda>r. lockedItemOf r (foundOf (lk r))) nc \<and>
               (\<forall>r\<in>set nc. lk r = Found (foundOf (lk r))) \<and>
               distinct (map key nc) \<and>
               (\<forall>r\<in>set nc. \<exists>v. meta_versionId (foundOf (lk r)) = Some v \<and>
                    (res_id (foundOf (lk r)), v) \<in> avail (rows (ddb w))) \<and>
               within w w1 (avail (rows (ddb w)) - {(i, v). (i, Some v) \<in> set (map key nc)})
             else lock_lockedItems resp = [] \<and> within w w1 (avail (rows (ddb w)))))"
proof -
  let ?svc = "tableService look budget"
  have g: "\<And>r. getMostRecentResource (dynamoDb ?svc) (ddb w) (rq_resourceType r) (rq_id r) = lk r"
    by (simp add: tableService_def tableClient_def lk_def)
  have here: "within w w (avail (rows (ddb w)))" by (simp add: within_refl)
  consider
      (many) "dynamoDbMaxBatchSize < length nc"
    | (failed) "length nc \<le> dynamoDbMaxBatchSize" "\<exists>r\<in>set requests. rq_operation r \<noteq> Create \<and> lk r = Failed"
    | (missing) "length nc \<le> dynamoDbMaxBatchSize"
        "\<forall>r\<in>set requests. rq_operation r \<noteq> Create \<longrightarrow> lk r \<noteq> Failed"
        "\<exists>r\<in>set requests. rq_operation r \<noteq> Create \<and> lk r = NotFound"
    | (found) "length nc \<le> dynamoDbMaxBatchSize"
        "\<forall>r\<in>set requests. rq_operation r \<noteq> Create \<longrightarrow> (\<exists>x. lk r = Found x)"
  proof -
    have "(\<forall>r\<in>set requests. rq_operation r \<noteq> Create \<longrightarrow> (\<exists>x. lk r = Found x)) \<or>
          (\<exists>r\<in>set requests. rq_operation r \<noteq> Create \<and> lk r = Failed) \<or>
          (\<exists>r\<in>set requests. rq_operation r \<noteq> Create \<and> lk r = NotFound)"
      by (metis lookup.exhaust)
    then show ?thesis using that by (cases "dynamoDbMaxBatchSize < length nc") auto
  qed
  then show ?thesis
  proof cases
    case many
    from lockItems_tooMany[of requests ?svc w] many run show ?thesis
      using here by (auto simp: nc_def)
  next
    case failed
    from lockItems_lookupFailed[of requests ?svc w] failed run show ?thesis
      by (auto simp: nc_def g)
  next
    case missing
    from lockItems_notFound[of requests ?svc w] missing run show ?thesis
      using here by (auto simp: nc_def g)
  next
    case found
    have fnd: "\<forall>r\<in>set nc. lk r = Found (foundOf (lk r))"
      using found(2) by (auto simp: nc_def foundOf_def)
    let ?reqs = "map (\<lambda>r. addLockRequestOf (foundOf (lk r))) nc"
    let ?locks = "map (\<lambda>r. lockedItemOf r (foundOf (lk r))) nc"
    have reqs: "?reqs = map (\<lambda>k. UpdateDocumentStatus (Some AVAILABLE) LOCKED (fst k) (snd k))
                          (map key nc)"
      by (simp add: o_def addLockRequestOf_def key_def)
    note all = lockItems_allFound[of requests ?svc w, unfolded g, folded nc_def, OF found(1)]
    show ?thesis
    proof (cases "nc = []")
      case True
      with all found(2) run have "res = Inr \<lparr>successfulLock = True, lock_errorType = None,
             lock_errorMessage = None, lock_lockedItems = []\<rparr>" "w1 = w"
        by simp_all
      then show ?thesis using True here by (simp add: within_refl)
    next
      case ne: False
      obtain ok s where t: "tableTransactWrite (ddb w) ?reqs = (ok, s)"
        by (cases "tableTransactWrite (ddb w) ?reqs")
      let ?w1 = "\<lparr>ddb = s, calls = calls w @ [TransactWrite ?reqs ok s]\<rparr>"
      have call: "callTransactWrite (dynamoDb ?svc) ?reqs w = (ok, ?w1)"
        by (simp add: callTransactWrite_def tableService_def tableClient_def t)
      show ?thesis
      proof (cases ok)
        case True
        with all found(2) run ne call have
          r: "res = Inr \<lparr>successfulLock = True, lock_errorType = None,
                lock_errorMessage = None, lock_lockedItems = ?locks\<rparr>" and w1: "w1 = ?w1"
          by simp_all
        from t True have t': "tableTransactWrite (ddb w) ?reqs = (True, s)" by simp
        from tableTransactWrite_ok[OF t']
        have ap: "applyWrites (rows (ddb w))
                    (map (\<lambda>k. UpdateDocumentStatus (Some AVAILABLE) LOCKED (fst k) (snd k))
                       (map key nc)) = Some (rows s)"
          by (simp only: reqs)
        from applyWrites_locks[OF ap] have
          a1: "\<forall>k\<in>set (map key nc). \<exists>v. snd k = Some v \<and>
                  statusAt (rows (ddb w)) (fst k) v = Some AVAILABLE"
          and a2: "distinct (map key nc)"
          and a3: "\<forall>i v. statusAt (rows s) i v =
                     (if (i, Some v) \<in> set (map key nc) then Some LOCKED
                      else statusAt (rows (ddb w)) i v)"
          by blast+
        have b1: "\<forall>r\<in>set nc. \<exists>v. meta_versionId (foundOf (lk r)) = Some v \<and>
                    (res_id (foundOf (lk r)), v) \<in> avail (rows (ddb w))"
          using a1 by (auto simp: key_def avail_def)
        have sub: "avail (rows s) \<subseteq>
                     avail (rows (ddb w)) - {(i, v). (i, Some v) \<in> set (map key nc)}"
          using a3 by (auto simp: avail_def split: if_splits)
        have wi: "within w ?w1 (avail (rows (ddb w)) - {(i, v). (i, Some v) \<in> set (map key nc)})"
          using sub by (simp add: within_def)
        show ?thesis
          using r w1 fnd a2 b1 wi by simp
      next
        case False
        with all found(2) run ne call have
          r: "\<not> successfulLock (projr res)" "lock_lockedItems (projr res) = []" "\<exists>resp. res = Inr resp"
          and w1: "w1 = ?w1"
          by auto
        from t False have t': "tableTransactWrite (ddb w) ?reqs = (False, s)" by simp
        have "rows s = rows (ddb w)"
          using t' by (rule tableTransactWrite_refused_rows)
        then have "within w ?w1 (avail (rows (ddb w)))"
          by (simp add: within_def)
        then show ?thesis using r w1 by auto
      qed
    qed
  qed
qed

subsection \<open>Locks that a rollback removes\<close>

lemma setProperty_set: "set (setProperty ps k v) \<subseteq> insert (k, v) (set ps)"
  by (induction ps) auto

lemma foldl_setProperty_inv:
  "\<forall>p\<in>set acc. P p \<Longrightarrow> \<forall>l\<in>set ls. P (f l, l) \<Longrightarrow>
   \<forall>p\<in>set (foldl (\<lambda>obj l. setProperty obj (f l) l) acc ls). P p"
proof (induction ls arbitrary: acc)
  case Nil
  then show ?case by simp
next
  case (Cons l ls)
  have "\<forall>p\<in>set (setProperty acc (f l) l). P p"
    using Cons.prems setProperty_set[of acc "f l" l] by auto
  then show ?case using Cons.IH[of "setProperty acc (f l) l"] Cons.prems(2) by simp
qed

lemma foldl_deleteProperty:
  "set (foldl (\<lambda>obj x. deleteProperty obj (g x)) obj xs) = {p \<in> set obj. fst p \<notin> g ` set xs}"
  by (induction xs arbitrary: obj) (auto simp: deleteProperty_def)

lemma removeLocks_subset:
  assumes "l \<in> set (removeLocksFromArray locks rems)"
  shows "l \<in> set locks \<and> lockFullId l \<notin> removalFullId ` set rems"
proof -
  let ?obj = "foldl (\<lambda>obj l. setProperty obj (lockFullId l) l) [] locks"
  have inv: "\<forall>p\<in>set ?obj. fst p = lockFullId (snd p) \<and> snd p \<in> set locks"
    by (rule foldl_setProperty_inv) simp_all
  from assms obtain p where
    p: "p \<in> set (foldl (\<lambda>obj x. deleteProperty obj (removalFullId x)) ?obj rems)" "l = snd p"
    by (auto simp: removeLocksFromArray_def Let_def lockFullId_def removalFullId_def)
  then have "p \<in> set ?obj" "fst p \<notin> removalFullId ` set rems"
    unfolding foldl_deleteProperty by simp_all
  with inv p(2) show ?thesis by auto
qed

lemma natToString_nonempty: "natToString n \<noteq> []"
  by (subst natToString.simps) simp

lemma nextVersion_nonempty: "nextVersion x \<noteq> []"
  by (simp add: nextVersion_def intToString_def natToString_nonempty Let_def)

lemma envKey_withReadResult [simp]: "envKey (withReadResult e raw) = envKey e"
  by (simp add: envKey_def withReadResult_def Let_def)

lemma populateLoop_envKey:
  "populateLoop es rsp i index = Inr arr \<or> populateLoop es rsp i index = Inl (e, arr) \<Longrightarrow>
   map envKey arr = map envKey es"
proof (induction es rsp i index rule: populateLoop.induct)
  case (1 es rsp i index)
  show ?case
  proof (cases "i < length es")
    case False
    then show ?thesis using "1.prems" by (subst (asm) (1 2) populateLoop.simps) auto
  next
    case inb: True
    show ?thesis
    proof (cases "rs_operation (es ! i) = Read")
      case False
      have "populateLoop es rsp i index = populateLoop es rsp (Suc i) index"
        using inb False by (subst populateLoop.simps) simp
      then show ?thesis using "1.IH"(2)[OF inb False] "1.prems" by simp
    next
      case isread: True
      show ?thesis
      proof (cases "\<exists>raw. nthOpt rsp index = Some (Some raw)")
        case False
        then have "populateLoop es rsp i index = Inl (IncompleteRead, es)"
          using inb isread by (subst populateLoop.simps) (auto split: option.splits)
        then show ?thesis using "1.prems" by auto
      next
        case True
        then obtain raw where nth: "nthOpt rsp index = Some (Some raw)" by blast
        let ?es = "es[i := withReadResult (es ! i) raw]"
        have step: "populateLoop es rsp i index = populateLoop ?es rsp (Suc i) (Suc index)"
          using inb isread nth by (subst populateLoop.simps) simp
        have "map envKey ?es = map envKey es"
          using inb by (simp add: map_update list_update_same_conv)
        then show ?thesis using "1.IH"(1)[OF inb isread nth] "1.prems" step by simp
      qed
    qed
  qed
qed

lemma stageItems_result:
  fixes svc out requests locks w
  defines "st \<equiv> generateStagingRequests out requests (idToVersionIdOf locks)"
    and "sr \<equiv> fst (stageItems svc out requests locks w)"
  shows "(stage_lockedItems sr = locks \<and> stage_batchReadWriteResponses sr = [] \<and>
            \<not> stage_success sr) \<or>
         (stage_lockedItems sr = locks @ newLocks st \<and>
            map envKey (stage_batchReadWriteResponses sr) = map envKey (newStagingResponses st))"
proof -
  obtain wrote w1 where r1:
    "(if editRequests st \<noteq> [] then callTransactWrite (dynamoDb svc) (editRequests st) w
      else (True, w)) = (wrote, w1)"
    by (cases "if editRequests st \<noteq> [] then callTransactWrite (dynamoDb svc) (editRequests st) w
               else (True, w)")
  obtain res w2 where r2: "callTransactGet (dynamoDb svc) (readRequests st) w1 = (res, w2)"
    by (cases "callTransactGet (dynamoDb svc) (readRequests st) w1")
  have pk: "\<And>rr e arr. populateBundleEntryResponseWithReadResult (newStagingResponses st) rr =
                Inl (e, arr) \<Longrightarrow> map envKey arr = map envKey (newStagingResponses st)"
           "\<And>rr arr. populateBundleEntryResponseWithReadResult (newStagingResponses st) rr =
                Inr arr \<Longrightarrow> map envKey arr = map envKey (newStagingResponses st)"
    using populateLoop_envKey unfolding populateBundleEntryResponseWithReadResult_def by blast+
  show ?thesis
    unfolding sr_def stageItems_def Let_def st_def[symmetric] r1 prod.case r2
    using pk by (auto split: option.splits sum.splits)
qed


lemma removal_fullIds:
  "map removalFullId (snd (generateRollbackRequests es)) =
     map (\<lambda>k. generateFullId (fst k) (template (fst (snd k))))
       (filter (\<lambda>k. fst (snd (snd k)) = Create \<or> fst (snd (snd k)) = Update) (map envKey es))"
  by (simp add: generateRollbackRequests_def rollback_foldl removalFullId_def envKey_def
        filter_map o_def)

lemma removal_fullIds_cong:
  "map envKey es = map envKey es' \<Longrightarrow>
   removalFullId ` set (snd (generateRollbackRequests es)) =
   removalFullId ` set (snd (generateRollbackRequests es'))"
proof -
  assume eq: "map envKey es = map envKey es'"
  have "set (map removalFullId (snd (generateRollbackRequests es))) =
        set (map removalFullId (snd (generateRollbackRequests es')))"
    by (simp only: removal_fullIds eq)
  then show ?thesis by (simp only: set_map)
qed

lemma newLocks_removed:
  assumes "l \<in> set (newLocks (generateStagingRequests out requests m))"
  shows "lockFullId l \<in> removalFullId `
           set (snd (generateRollbackRequests
                  (newStagingResponses (generateStagingRequests out requests m))))"
proof -
  let ?L = "\<lambda>(j, r).
            \<lparr>lk_id = (if rq_operation r = Create
                      then (if rq_id r \<noteq> [] then rq_id r else uuidv4 out j)
                      else res_id (rq_resource r)),
             lk_vid = Some (if rq_operation r = Create then ''1''
                            else nextVersion (m (res_id (rq_resource r)))),
             lk_resourceType = rq_resourceType r,
             lk_operation = rq_operation r,
             lk_isOriginalUpdateItem = (if rq_operation r = Update then Some False else None)\<rparr>"
  let ?R = "\<lambda>(j, r).
            \<lparr>rs_id = (case rq_operation r of
                        Create \<Rightarrow> (if rq_id r \<noteq> [] then rq_id r else uuidv4 out j)
                      | Update \<Rightarrow> res_id (rq_resource r)
                      | _ \<Rightarrow> rq_id r),
              rs_vid = (case rq_operation r of
                        Create \<Rightarrow> Some ''1''
                      | Update \<Rightarrow> Some (nextVersion (m (res_id (rq_resource r))))
                      | _ \<Rightarrow> m (rq_id r)),
              rs_operation = rq_operation r,
              rs_lastModified = (if rq_operation r = Read then [] else isoNow out j),
              rs_resourceType = rq_resourceType r,
              rs_resource = None\<rparr>"
  have nl: "newLocks (generateStagingRequests out requests m) =
              map ?L (filter (\<lambda>(j, r). rq_operation r = Create \<or> rq_operation r = Update)
                        (enumerate 0 requests))"
    by (simp add: generateStagingRequests_def stagingLoop_newLocks)
  have ns: "newStagingResponses (generateStagingRequests out requests m) =
              map ?R (filter (\<lambda>(j, r). rq_operation r \<in> {Create, Read, Update, Delete})
                        (enumerate 0 requests))"
    by (simp add: generateStagingRequests_def stagingLoop_newStagingResponses)
  from assms have "l \<in> ?L ` set (filter (\<lambda>(j, r). rq_operation r = Create \<or> rq_operation r = Update)
                   (enumerate 0 requests))"
    unfolding nl set_map .
  then obtain p where l: "l = ?L p"
    and p: "p \<in> set (filter (\<lambda>(j, r). rq_operation r = Create \<or> rq_operation r = Update)
                   (enumerate 0 requests))"
    by (rule imageE)
  obtain j r where jr: "p = (j, r)" by (cases p)
  have mem: "(j, r) \<in> set (enumerate 0 requests)"
    and cu: "rq_operation r = Create \<or> rq_operation r = Update"
    using p unfolding jr by simp_all
  have "(j, r) \<in> set (filter (\<lambda>(j, r). rq_operation r \<in> {Create, Read, Update, Delete})
                        (enumerate 0 requests))"
    using mem cu by auto
  then have e: "?R (j, r) \<in> set (newStagingResponses (generateStagingRequests out requests m))"
    unfolding ns set_map by (rule imageI)
  have ecu: "rs_operation (?R (j, r)) = Create \<or> rs_operation (?R (j, r)) = Update"
    using cu by simp
  let ?x = "\<lparr>rm_id = rs_id (?R (j, r)), rm_vid = rs_vid (?R (j, r)),
             rm_resourceType = rs_resourceType (?R (j, r))\<rparr>"
  have "?R (j, r) \<in> set (filter (\<lambda>e. rs_operation e = Create \<or> rs_operation e = Update)
                   (newStagingResponses (generateStagingRequests out requests m)))"
    using e ecu by simp
  then have x: "?x \<in> set (snd (generateRollbackRequests
                  (newStagingResponses (generateStagingRequests out requests m))))"
    unfolding generateRollbackRequests_def rollback_foldl snd_conv append_Nil set_map
    by (rule imageI)
  have eq: "lockFullId l = removalFullId ?x"
  proof (cases "rq_operation r = Create")
    case True
    then show ?thesis
      by (simp add: l jr lockFullId_def removalFullId_def or_default_def template_def)
  next
    case False
    with cu have "rq_operation r = Update" by simp
    then show ?thesis
      by (simp add: l jr lockFullId_def removalFullId_def or_default_def template_def
            nextVersion_nonempty)
  qed
  show ?thesis unfolding eq using x by (rule imageI)
qed

lemma rollbackItems_remaining:
  "fst (rollbackItems svc responses locks w) =
     removeLocksFromArray locks (snd (generateRollbackRequests responses))"
  by (simp add: rollbackItems_def Let_def split: prod.splits)

lemma makesAvailable_unlock:
  "makesAvailable (unlockRequest rb l) =
     (if (lk_operation l = Delete \<or>
          (lk_operation l = Update \<and> lk_isOriginalUpdateItem l = Some True)) \<and> \<not> rb
      then {} else {lockKey l})"
  by (simp add: unlockRequest_def lockKey_def)

lemma single_rollback:
  assumes "single A"
    and "\<forall>l\<in>set L. \<exists>v. lk_vid l = Some v \<and> (lk_id l, v) \<in> A \<and> (lk_id l, v) \<in> K"
  shows "single ((A - K) \<union> lockKey ` set L)"
  unfolding single_def
proof (intro allI impI)
  fix i a b
  assume "(i, a) \<in> A - K \<union> lockKey ` set L \<and> (i, b) \<in> A - K \<union> lockKey ` set L"
  then have ia: "(i, a) \<in> A - K \<or> (i, a) \<in> lockKey ` set L"
    and ib: "(i, b) \<in> A - K \<or> (i, b) \<in> lockKey ` set L" by auto
  have lock: "\<exists>v. (i, v) \<in> A \<and> (i, v) \<in> K \<and> c = or_default (Some v) ''0''"
    if "(i, c) \<in> lockKey ` set L" for c
  proof -
    from that obtain l where l: "l \<in> set L" "lockKey l = (i, c)" by auto
    with assms(2) obtain v where "lk_vid l = Some v" "(lk_id l, v) \<in> A" "(lk_id l, v) \<in> K"
      by blast
    with l(2) show ?thesis by (auto simp: lockKey_def)
  qed
  have uniq: "v = v'" if "(i, v) \<in> A" "(i, v') \<in> A" for v v'
    using assms(1) that unfolding single_def by blast
  from ia ib show "a = b"
  proof (elim disjE)
    assume "(i, a) \<in> A - K" "(i, b) \<in> A - K"
    then show ?thesis using uniq by blast
  next
    assume a: "(i, a) \<in> A - K" and b: "(i, b) \<in> lockKey ` set L"
    from lock[OF b] obtain v where "(i, v) \<in> A" "(i, v) \<in> K" by blast
    with a uniq[of a v] show ?thesis by blast
  next
    assume a: "(i, a) \<in> lockKey ` set L" and b: "(i, b) \<in> A - K"
    from lock[OF a] obtain v where "(i, v) \<in> A" "(i, v) \<in> K" by blast
    with b uniq[of b v] show ?thesis by blast
  next
    assume a: "(i, a) \<in> lockKey ` set L" and b: "(i, b) \<in> lockKey ` set L"
    from lock[OF a] obtain v where v: "(i, v) \<in> A" "a = or_default (Some v) ''0''" by blast
    from lock[OF b] obtain v' where v': "(i, v') \<in> A" "b = or_default (Some v') ''0''" by blast
    from uniq[OF v(1) v'(1)] v(2) v'(2) show ?thesis by simp
  qed
qed

lemma single_commit:
  assumes "single A"
    and KL: "\<forall>l\<in>set KL. \<exists>v. lk_vid l = Some v \<and> (lk_id l, v) \<in> A \<and> (lk_id l, v) \<in> K"
    and NL: "\<forall>l\<in>set NL. (\<forall>v. (lk_id l, v) \<notin> A) \<or>
               ((\<exists>v. (lk_id l, v) \<in> A \<and> (lk_id l, v) \<in> K) \<and> (\<forall>l'\<in>set KL. lk_id l' \<noteq> lk_id l))"
    and same: "\<forall>l\<in>set NL. \<forall>l'\<in>set NL. lk_id l = lk_id l' \<longrightarrow> lockKey l = lockKey l'"
  shows "single ((A - K) \<union> lockKey ` set KL \<union> lockKey ` set NL)"
proof -
  have base: "single ((A - K) \<union> lockKey ` set KL)"
    using assms(1) KL by (rule single_rollback)
  have uniq: "v = v'" if "(i, v) \<in> A" "(i, v') \<in> A" for i v v'
    using assms(1) that unfolding single_def by blast
  have new_old: False
    if n: "(i, a) \<in> lockKey ` set NL" and o: "(i, b) \<in> (A - K) \<union> lockKey ` set KL" for i a b
  proof -
    from n obtain l where l: "l \<in> set NL" "lk_id l = i" by (auto simp: lockKey_def)
    from o consider "(i, b) \<in> A" "(i, b) \<notin> K" | l' where "l' \<in> set KL" "lk_id l' = i"
      by (auto simp: lockKey_def)
    then show False
    proof cases
      case 1
      from NL l have "(\<forall>v. (i, v) \<notin> A) \<or> (\<exists>v. (i, v) \<in> A \<and> (i, v) \<in> K)" by blast
      with 1 uniq[of i b] show False by blast
    next
      case 2
      from KL 2 obtain v where "(i, v) \<in> A" by blast
      with NL l 2 show False by blast
    qed
  qed
  show ?thesis
    unfolding single_def
  proof (intro allI impI)
    fix i a b
    assume h: "(i, a) \<in> A - K \<union> lockKey ` set KL \<union> lockKey ` set NL \<and>
               (i, b) \<in> A - K \<union> lockKey ` set KL \<union> lockKey ` set NL"
    then consider
        "(i, a) \<in> (A - K) \<union> lockKey ` set KL" "(i, b) \<in> (A - K) \<union> lockKey ` set KL"
      | "(i, a) \<in> lockKey ` set NL" "(i, b) \<in> (A - K) \<union> lockKey ` set KL"
      | "(i, a) \<in> (A - K) \<union> lockKey ` set KL" "(i, b) \<in> lockKey ` set NL"
      | "(i, a) \<in> lockKey ` set NL" "(i, b) \<in> lockKey ` set NL"
      by blast
    then show "a = b"
    proof cases
      case 1
      then show ?thesis using base unfolding single_def by blast
    next
      case 2
      then show ?thesis using new_old by blast
    next
      case 3
      then show ?thesis using new_old by blast
    next
      case 4
      then obtain l l' where "l \<in> set NL" "lockKey l = (i, a)" "l' \<in> set NL" "lockKey l' = (i, b)"
        by auto
      moreover from this have "lk_id l = lk_id l'" by (simp add: lockKey_def)
      ultimately show ?thesis using same by fastforce
    qed
  qed
qed

subsection \<open>The whole transaction\<close>

lemma transaction_world:
  "snd (transaction svc out dateNow startTime requests w) =
     (if requests = [] then w
      else case lockItems svc requests w of
             (Inl e, w1) \<Rightarrow> w1
           | (Inr resp, w1) \<Rightarrow>
               if getElapsedTime dateNow 0 startTime > maxExecutionTimeMs svc \<or> \<not> successfulLock resp
               then snd (unlockItems svc (lock_lockedItems resp) True w1)
               else (case stageItems svc out requests (lock_lockedItems resp) w1 of
                       (sr, w2) \<Rightarrow>
                         if getElapsedTime dateNow 1 startTime > maxExecutionTimeMs svc \<or>
                            \<not> stage_success sr
                         then (case rollbackItems svc (stage_batchReadWriteResponses sr)
                                      (stage_lockedItems sr) w2 of
                                 (remaining, w3) \<Rightarrow> snd (unlockItems svc remaining True w3))
                         else snd (unlockItems svc (stage_lockedItems sr) False w2)))"
  by (simp add: transaction_def Let_def split: prod.splits sum.splits)

lemma within_single:
  assumes "within w w1 U" and "single U"
  shows "\<exists>new. calls w1 = calls w @ new \<and> (\<forall>c\<in>set new. oneAvailable (rows (stateAfter c))) \<and>
           oneAvailable (rows (ddb w1))"
  using assms unfolding within_def oneAvailable_single
  by (meson single_subset)

lemma lockKey_lockedItemOf:
  "lk_id (lockedItemOf r res) = res_id res"
  "lk_vid (lockedItemOf r res) = meta_versionId res"
  "lk_operation (lockedItemOf r res) = rq_operation r"
  "lk_isOriginalUpdateItem (lockedItemOf r res) = (if rq_operation r = Update then Some True else None)"
  by (simp_all add: lockedItemOf_def)

text \<open>
  C8, as the code has it, on the table: take a store in which no id has two available
  versions, and a transaction in which every lookup gives back the id it was asked for,
  every update carries the id of its request in its resource, and no create uses an id
  (its own, or the one minted for it) that has an available version. Then after every
  batch the transaction submits (lock, stage, rollback, unlock, whether it succeeds or
  fails, within the time budget or not) no id has two available versions, and neither at
  the end.
\<close>

theorem one_available_preserved:
  assumes inv: "oneAvailable (rows (ddb w))"
    and echo: "\<forall>r\<in>set requests. rq_operation r \<noteq> Create \<longrightarrow>
                 (\<forall>res. look (ddb w) (rq_resourceType r) (rq_id r) = Found res \<longrightarrow>
                        res_id res = rq_id r)"
    and upd: "\<forall>r\<in>set requests. rq_operation r = Update \<longrightarrow> res_id (rq_resource r) = rq_id r"
    and fresh: "\<forall>k<length requests. rq_operation (requests ! k) = Create \<longrightarrow>
                  (\<forall>v. statusAt (rows (ddb w))
                         (if rq_id (requests ! k) \<noteq> [] then rq_id (requests ! k)
                          else uuidv4 out k) v \<noteq> Some AVAILABLE)"
  shows "\<exists>new.
           calls (snd (transaction (tableService look budget) out dateNow startTime requests w)) =
             calls w @ new \<and>
           (\<forall>c\<in>set new. oneAvailable (rows (stateAfter c))) \<and>
           oneAvailable (rows (ddb (snd (transaction (tableService look budget) out dateNow
                                           startTime requests w))))"
proof -
  let ?svc = "tableService look budget"
  let ?A = "avail (rows (ddb w))"
  let ?w' = "snd (transaction ?svc out dateNow startTime requests w)"
  let ?nc = "filter (\<lambda>r. rq_operation r \<noteq> Create) requests"
  let ?lk = "\<lambda>r. look (ddb w) (rq_resourceType r) (rq_id r)"
  let ?key = "\<lambda>r. (res_id (foundOf (?lk r)), meta_versionId (foundOf (?lk r)))"
  let ?K = "{(i, v). (i, Some v) \<in> set (map ?key ?nc)}"
  have sA: "single ?A" using inv by (simp add: oneAvailable_single)
  have uniq: "v = v'" if "(i, v) \<in> ?A" "(i, v') \<in> ?A" for i v v'
    using sA that unfolding single_def by blast
  have here: "within w w ?A" by (simp add: within_refl)
  have goal: "\<exists>U. single U \<and> within w ?w' U"
  proof (cases "requests = []")
    case True
    then have "?w' = w" by (simp add: transaction_world)
    then show ?thesis using sA here by auto
  next
    case ne: False
    obtain res w1 where L: "lockItems ?svc requests w = (res, w1)"
      by (cases "lockItems ?svc requests w")
    note T = lockItems_table[OF L]
    show ?thesis
    proof (cases res)
      case (Inl e)
      with T have "w1 = w" by simp
      then have "?w' = w" using ne L Inl by (simp add: transaction_world)
      then show ?thesis using sA here by auto
    next
      case (Inr resp)
      show ?thesis
      proof (cases "successfulLock resp")
        case False
        with T Inr have l0: "lock_lockedItems resp = []" and w1: "within w w1 ?A" by simp_all
        have "?w' = w1"
          using ne L Inr False l0 by (simp add: transaction_world unlockItems_def)
        then show ?thesis using sA w1 by auto
      next
        case locked: True
        let ?KL = "lock_lockedItems resp"
        from T Inr locked have
          kl: "?KL = map (\<lambda>r. lockedItemOf r (foundOf (?lk r))) ?nc"
          and fnd: "\<forall>r\<in>set ?nc. ?lk r = Found (foundOf (?lk r))"
          and dist: "distinct (map ?key ?nc)"
          and av: "\<forall>r\<in>set ?nc. \<exists>v. meta_versionId (foundOf (?lk r)) = Some v \<and>
                     (res_id (foundOf (?lk r)), v) \<in> ?A"
          and w1: "within w w1 (?A - ?K)"
          by simp_all
        have a1: "avail (rows (ddb w1)) \<subseteq> ?A - ?K" using w1 by (simp add: within_def)
        have inK: "(res_id (foundOf (?lk r)), v) \<in> ?K"
          if "r \<in> set ?nc" "meta_versionId (foundOf (?lk r)) = Some v" for r v
          using that by (force simp: image_iff)
        have KLprop: "\<forall>l\<in>set ?KL. \<exists>v. lk_vid l = Some v \<and> (lk_id l, v) \<in> ?A \<and> (lk_id l, v) \<in> ?K"
        proof
          fix l assume "l \<in> set ?KL"
          then obtain r where r: "r \<in> set ?nc" "l = lockedItemOf r (foundOf (?lk r))"
            unfolding kl by auto
          from av r(1) obtain v where v: "meta_versionId (foundOf (?lk r)) = Some v"
            "(res_id (foundOf (?lk r)), v) \<in> ?A" by blast
          with inK[OF r(1) v(1)] r(2)
          show "\<exists>v. lk_vid l = Some v \<and> (lk_id l, v) \<in> ?A \<and> (lk_id l, v) \<in> ?K"
            by (simp add: lockKey_lockedItemOf)
        qed
        let ?U = "(?A - ?K) \<union> lockKey ` set ?KL"
        have sU: "single ?U" using sA KLprop by (rule single_rollback)
        have rel: "within w (snd (unlockItems ?svc locks True w2)) ?U"
          if "within w w2 (?A - ?K)" "set locks \<subseteq> set ?KL" for locks w2
        proof -
          have "avail (rows (ddb w2)) \<subseteq> ?U" using that(1) by (auto simp: within_def)
          moreover have "\<forall>l\<in>set locks. makesAvailable (unlockRequest True l) \<subseteq> ?U"
            using that(2) by (auto simp: makesAvailable_unlock)
          ultimately have "within w2 (snd (unlockItems ?svc locks True w2)) ?U"
            by (rule unlockItems_within)
          moreover have "within w w2 ?U" using that(1) by (rule within_mono) auto
          ultimately show ?thesis using within_trans by blast
        qed
        show ?thesis
        proof (cases "getElapsedTime dateNow 0 startTime > maxExecutionTimeMs ?svc")
          case True
          then have "?w' = snd (unlockItems ?svc ?KL True w1)"
            using ne L Inr by (simp add: transaction_world)
          then show ?thesis using rel[OF w1, of ?KL] sU by auto
        next
          case intime: False
          obtain sr w2 where S: "stageItems ?svc out requests ?KL w1 = (sr, w2)"
            by (cases "stageItems ?svc out requests ?KL w1")
          let ?st = "generateStagingRequests out requests (idToVersionIdOf ?KL)"
          have "within w1 w2 (?A - ?K)"
            using stageItems_within[OF a1, of look budget out requests ?KL] S by simp
          then have w2: "within w w2 (?A - ?K)" using w1 within_trans by blast
          then have a2: "avail (rows (ddb w2)) \<subseteq> ?A - ?K" by (simp add: within_def)
          from stageItems_result[of ?svc out requests ?KL w1] S have shape:
            "(stage_lockedItems sr = ?KL \<and> stage_batchReadWriteResponses sr = [] \<and>
                \<not> stage_success sr) \<or>
             (stage_lockedItems sr = ?KL @ newLocks ?st \<and>
                map envKey (stage_batchReadWriteResponses sr) =
                map envKey (newStagingResponses ?st))"
            by simp
          show ?thesis
          proof (cases "getElapsedTime dateNow 1 startTime > maxExecutionTimeMs ?svc \<or>
                        \<not> stage_success sr")
            case True
            obtain rem w3 where R: "rollbackItems ?svc (stage_batchReadWriteResponses sr)
                                      (stage_lockedItems sr) w2 = (rem, w3)"
              by (cases "rollbackItems ?svc (stage_batchReadWriteResponses sr)
                           (stage_lockedItems sr) w2")
            have "within w2 w3 (?A - ?K)"
              using rollbackItems_within[OF a2, of look budget
                      "stage_batchReadWriteResponses sr" "stage_lockedItems sr"] R by simp
            then have w3: "within w w3 (?A - ?K)" using w2 within_trans by blast
            have rem: "rem = removeLocksFromArray (stage_lockedItems sr)
                         (snd (generateRollbackRequests (stage_batchReadWriteResponses sr)))"
              using rollbackItems_remaining[of ?svc "stage_batchReadWriteResponses sr"
                      "stage_lockedItems sr" w2] R by simp
            have sub: "set rem \<subseteq> set ?KL"
            proof
              fix l assume "l \<in> set rem"
              from removeLocks_subset[OF this[unfolded rem]] have
                m: "l \<in> set (stage_lockedItems sr)"
                and n: "lockFullId l \<notin> removalFullId `
                          set (snd (generateRollbackRequests (stage_batchReadWriteResponses sr)))"
                by simp_all
              from shape show "l \<in> set ?KL"
              proof
                assume "stage_lockedItems sr = ?KL \<and> stage_batchReadWriteResponses sr = [] \<and>
                        \<not> stage_success sr"
                with m show ?thesis by simp
              next
                assume c: "stage_lockedItems sr = ?KL @ newLocks ?st \<and>
                           map envKey (stage_batchReadWriteResponses sr) =
                           map envKey (newStagingResponses ?st)"
                then have "removalFullId `
                             set (snd (generateRollbackRequests (stage_batchReadWriteResponses sr))) =
                           removalFullId `
                             set (snd (generateRollbackRequests (newStagingResponses ?st)))"
                  by (intro removal_fullIds_cong) simp
                with n newLocks_removed[of l out requests "idToVersionIdOf ?KL"]
                have "l \<notin> set (newLocks ?st)" by blast
                with m c show ?thesis by simp
              qed
            qed
            have "?w' = snd (unlockItems ?svc rem True w3)"
              using ne L Inr locked intime S True R by (simp add: transaction_world)
            then show ?thesis using rel[OF w3 sub] sU by auto
          next
            case commit: False
            then have ok: "stage_success sr" by simp
            with shape have sl: "stage_lockedItems sr = ?KL @ newLocks ?st" by blast
            have w': "?w' = snd (unlockItems ?svc (?KL @ newLocks ?st) False w2)"
              using ne L Inr locked intime S commit sl by (simp add: transaction_world)
            let ?KLo = "filter (\<lambda>l. lk_operation l \<noteq> Delete \<and> lk_operation l \<noteq> Update) ?KL"
            let ?NL = "newLocks ?st"
            let ?V = "(?A - ?K) \<union> lockKey ` set ?KLo \<union> lockKey ` set ?NL"
            let ?m = "idToVersionIdOf ?KL"
            let ?Lf = "\<lambda>(j, r).
              \<lparr>lk_id = (if rq_operation r = Create
                        then (if rq_id r \<noteq> [] then rq_id r else uuidv4 out j)
                        else res_id (rq_resource r)),
               lk_vid = Some (if rq_operation r = Create then ''1''
                              else nextVersion (?m (res_id (rq_resource r)))),
               lk_resourceType = rq_resourceType r,
               lk_operation = rq_operation r,
               lk_isOriginalUpdateItem = (if rq_operation r = Update then Some False else None)\<rparr>"
            have nl: "?NL = map ?Lf (filter (\<lambda>(j, r). rq_operation r = Create \<or> rq_operation r = Update)
                                      (enumerate 0 requests))"
              by (simp add: generateStagingRequests_def stagingLoop_newLocks)
            have newlock: "\<exists>j r. j < length requests \<and> requests ! j = r \<and>
                             (rq_operation r = Create \<or> rq_operation r = Update) \<and> l = ?Lf (j, r)"
              if "l \<in> set ?NL" for l
            proof -
              from that have "l \<in> ?Lf ` set (filter (\<lambda>(j, r). rq_operation r = Create \<or>
                                  rq_operation r = Update) (enumerate 0 requests))"
                unfolding nl set_map .
              then obtain p where l: "l = ?Lf p"
                and p: "p \<in> set (filter (\<lambda>(j, r). rq_operation r = Create \<or>
                                  rq_operation r = Update) (enumerate 0 requests))"
                by (rule imageE)
              obtain j r where jr: "p = (j, r)" by (cases p)
              from p have "j < length requests" "requests ! j = r"
                "rq_operation r = Create \<or> rq_operation r = Update"
                unfolding jr by (simp_all add: in_set_enumerate_eq)
              with l jr show ?thesis by blast
            qed
            have created: "\<forall>v. (lk_id l, v) \<notin> ?A"
              if "j < length requests" "rq_operation (requests ! j) = Create"
                 "l = ?Lf (j, requests ! j)" for l j
              using fresh that by (simp add: avail_def)
            have updated: "(\<exists>v. (lk_id l, v) \<in> ?A \<and> (lk_id l, v) \<in> ?K) \<and>
                           (\<forall>l'\<in>set ?KLo. lk_id l' \<noteq> lk_id l)"
              if j: "j < length requests" and u: "rq_operation (requests ! j) = Update"
                and l: "l = ?Lf (j, requests ! j)" for l j
            proof -
              let ?r = "requests ! j"
              have rin: "?r \<in> set requests" using j by simp
              then have rnc: "?r \<in> set ?nc" using u by simp
              have id: "lk_id l = rq_id ?r" using l u upd rin by simp
              have fr: "?lk ?r = Found (foundOf (?lk ?r))" using fnd rnc by blast
              have ec: "res_id (foundOf (?lk ?r)) = rq_id ?r"
                using echo rin u fr by (metis operation.distinct(3))
              from av rnc obtain v where v: "meta_versionId (foundOf (?lk ?r)) = Some v"
                "(res_id (foundOf (?lk ?r)), v) \<in> ?A" by blast
              have 1: "(lk_id l, v) \<in> ?A" "(lk_id l, v) \<in> ?K"
                using v inK[OF rnc v(1)] by (simp_all add: id ec)
              have 2: "lk_id l' \<noteq> lk_id l" if l': "l' \<in> set ?KLo" for l'
              proof
                assume same: "lk_id l' = lk_id l"
                from l' obtain r' where r': "r' \<in> set ?nc" "l' = lockedItemOf r' (foundOf (?lk r'))"
                  and o: "lk_operation l' \<noteq> Delete \<and> lk_operation l' \<noteq> Update"
                  unfolding kl by auto
                from av r'(1) obtain v' where v': "meta_versionId (foundOf (?lk r')) = Some v'"
                  "(res_id (foundOf (?lk r')), v') \<in> ?A" by blast
                have i': "res_id (foundOf (?lk r')) = lk_id l"
                  using same r'(2) by (simp add: lockKey_lockedItemOf)
                have "v' = v" using uniq[of "lk_id l" v' v] v' 1(1) i' by simp
                then have "?key r' = ?key ?r" using v v' i' id ec by simp
                then have "r' = ?r"
                  using dist r'(1) rnc by (meson distinct_map inj_onD)
                then show False using o r'(2) u by (simp add: lockKey_lockedItemOf)
              qed
              from 1 2 show ?thesis by blast
            qed
            have NLprop: "\<forall>l\<in>set ?NL. (\<forall>v. (lk_id l, v) \<notin> ?A) \<or>
                ((\<exists>v. (lk_id l, v) \<in> ?A \<and> (lk_id l, v) \<in> ?K) \<and>
                 (\<forall>l'\<in>set ?KLo. lk_id l' \<noteq> lk_id l))"
            proof
              fix l assume "l \<in> set ?NL"
              from newlock[OF this] obtain j where j: "j < length requests"
                "rq_operation (requests ! j) = Create \<or> rq_operation (requests ! j) = Update"
                "l = ?Lf (j, requests ! j)" by blast
              from j(2) show "(\<forall>v. (lk_id l, v) \<notin> ?A) \<or>
                ((\<exists>v. (lk_id l, v) \<in> ?A \<and> (lk_id l, v) \<in> ?K) \<and>
                 (\<forall>l'\<in>set ?KLo. lk_id l' \<noteq> lk_id l))"
              proof
                assume "rq_operation (requests ! j) = Create"
                from created[OF j(1) this j(3)] show ?thesis by blast
              next
                assume "rq_operation (requests ! j) = Update"
                from updated[OF j(1) this j(3)] show ?thesis by blast
              qed
            qed
            have sameprop: "\<forall>l\<in>set ?NL. \<forall>l'\<in>set ?NL. lk_id l = lk_id l' \<longrightarrow> lockKey l = lockKey l'"
            proof (intro ballI impI)
              fix l l' assume ll: "l \<in> set ?NL" "l' \<in> set ?NL" and same: "lk_id l = lk_id l'"
              from newlock[OF ll(1)] obtain j where j: "j < length requests"
                "rq_operation (requests ! j) = Create \<or> rq_operation (requests ! j) = Update"
                "l = ?Lf (j, requests ! j)" by blast
              from newlock[OF ll(2)] obtain j' where j': "j' < length requests"
                "rq_operation (requests ! j') = Create \<or> rq_operation (requests ! j') = Update"
                "l' = ?Lf (j', requests ! j')" by blast
              consider (cc) "rq_operation (requests ! j) = Create" "rq_operation (requests ! j') = Create"
                | (uu) "rq_operation (requests ! j) = Update" "rq_operation (requests ! j') = Update"
                | (cu) "rq_operation (requests ! j) = Create" "rq_operation (requests ! j') = Update"
                | (uc) "rq_operation (requests ! j) = Update" "rq_operation (requests ! j') = Create"
                using j(2) j'(2) by blast
              then show "lockKey l = lockKey l'"
              proof cases
                case cc
                then show ?thesis using same j(3) j'(3) by (simp add: lockKey_def)
              next
                case uu
                then show ?thesis using same j(3) j'(3) by (simp add: lockKey_def)
              next
                case cu
                from created[OF j(1) cu(1) j(3)] updated[OF j'(1) cu(2) j'(3)] same
                show ?thesis by auto
              next
                case uc
                from created[OF j'(1) uc(2) j'(3)] updated[OF j(1) uc(1) j(3)] same
                show ?thesis by auto
              qed
            qed
            have KLo: "\<forall>l\<in>set ?KLo. \<exists>v. lk_vid l = Some v \<and> (lk_id l, v) \<in> ?A \<and> (lk_id l, v) \<in> ?K"
              using KLprop by simp
            have sV: "single ?V" using sA KLo NLprop sameprop by (rule single_commit)
            have tg: "\<forall>l\<in>set (?KL @ ?NL). makesAvailable (unlockRequest False l) \<subseteq> ?V"
            proof
              fix l assume "l \<in> set (?KL @ ?NL)"
              then consider "l \<in> set ?KL" | "l \<in> set ?NL" by auto
              then show "makesAvailable (unlockRequest False l) \<subseteq> ?V"
              proof cases
                case 1
                then obtain r where "l = lockedItemOf r (foundOf (?lk r))" unfolding kl by auto
                then have "lk_operation l = Update \<longrightarrow> lk_isOriginalUpdateItem l = Some True"
                  by (simp add: lockKey_lockedItemOf)
                then show ?thesis using 1 by (auto simp: makesAvailable_unlock)
              next
                case 2
                then show ?thesis by (auto simp: makesAvailable_unlock)
              qed
            qed
            have "avail (rows (ddb w2)) \<subseteq> ?V" using a2 by auto
            then have "within w2 (snd (unlockItems ?svc (?KL @ ?NL) False w2)) ?V"
              using tg by (rule unlockItems_within)
            moreover have "within w w2 ?V" using w2 by (rule within_mono) auto
            ultimately have "within w ?w' ?V" unfolding w' using within_trans by blast
            then show ?thesis using sV by blast
          qed
        qed
      qed
    qed
  qed
  then obtain U where "single U" "within w ?w' U" by blast
  then show ?thesis using within_single by blast
qed


lemma sample_commit:
  "success (projr (fst (transaction (tableService (sampleLookup sampleKnown) 26000) sampleOutside
       (\<lambda>k. 1000) 0 sampleBundle sampleStore)))"
  "statusAt (rows (ddb (snd (transaction (tableService (sampleLookup sampleKnown) 26000)
       sampleOutside (\<lambda>k. 1000) 0 sampleBundle sampleStore)))) ''X'' ''3'' = Some DELETED"
  "statusAt (rows (ddb (snd (transaction (tableService (sampleLookup sampleKnown) 26000)
       sampleOutside (\<lambda>k. 1000) 0 sampleBundle sampleStore)))) ''X'' ''4'' = Some AVAILABLE"
  "statusAt (rows (ddb (snd (transaction (tableService (sampleLookup sampleKnown) 26000)
       sampleOutside (\<lambda>k. 1000) 0 sampleBundle sampleStore)))) ''uuid-1'' ''1'' = Some AVAILABLE"
  "statusAt (rows (ddb (snd (transaction (tableService (sampleLookup sampleKnown) 26000)
       sampleOutside (\<lambda>k. 1000) 0 sampleBundle sampleStore)))) ''Y'' ''1'' = Some DELETED"
  "length (calls (snd (transaction (tableService (sampleLookup sampleKnown) 26000)
       sampleOutside (\<lambda>k. 1000) 0 sampleBundle sampleStore))) = 3"
  by code_simp+

theorem one_available_preserved_witness:
  "oneAvailable (rows (ddb sampleStore)) \<and>
   success (projr (fst (transaction (tableService (sampleLookup sampleKnown) 26000) sampleOutside
       (\<lambda>k. 1000) 0 sampleBundle sampleStore))) \<and>
   statusAt (rows (ddb (snd (transaction (tableService (sampleLookup sampleKnown) 26000)
       sampleOutside (\<lambda>k. 1000) 0 sampleBundle sampleStore)))) ''X'' ''3'' = Some DELETED \<and>
   statusAt (rows (ddb (snd (transaction (tableService (sampleLookup sampleKnown) 26000)
       sampleOutside (\<lambda>k. 1000) 0 sampleBundle sampleStore)))) ''X'' ''4'' = Some AVAILABLE \<and>
   length (calls (snd (transaction (tableService (sampleLookup sampleKnown) 26000)
       sampleOutside (\<lambda>k. 1000) 0 sampleBundle sampleStore))) = 3 \<and>
   list_all (\<lambda>c. oneAvailable (rows (stateAfter c)))
     (calls (snd (transaction (tableService (sampleLookup sampleKnown) 26000)
       sampleOutside (\<lambda>k. 1000) 0 sampleBundle sampleStore))) \<and>
   oneAvailable (rows (ddb (snd (transaction (tableService (sampleLookup sampleKnown) 26000)
       sampleOutside (\<lambda>k. 1000) 0 sampleBundle sampleStore))))"
proof -
  have inv: "oneAvailable (rows (ddb sampleStore))"
    by (auto simp: oneAvailable_def statusAt_def sampleStore_def sampleTable_def sampleRow_def
          split: if_splits)
  have echo: "\<forall>r\<in>set sampleBundle. rq_operation r \<noteq> Create \<longrightarrow>
                 (\<forall>res. sampleLookup sampleKnown (ddb sampleStore) (rq_resourceType r) (rq_id r) =
                          Found res \<longrightarrow> res_id res = rq_id r)"
    by (auto simp: sampleBundle_def sampleRequest_def sampleLookup_def sampleKnown_def
          sampleResource_def)
  have upd: "\<forall>r\<in>set sampleBundle. rq_operation r = Update \<longrightarrow> res_id (rq_resource r) = rq_id r"
    by (simp add: sampleBundle_def sampleRequest_def sampleResource_def)
  have u1: "uuidv4 sampleOutside (Suc 0) = ''uuid-1''"
    by (simp add: sampleOutside_def natToString.simps)
  have fresh: "\<forall>k<length sampleBundle. rq_operation (sampleBundle ! k) = Create \<longrightarrow>
                  (\<forall>v. statusAt (rows (ddb sampleStore))
                         (if rq_id (sampleBundle ! k) \<noteq> [] then rq_id (sampleBundle ! k)
                          else uuidv4 sampleOutside k) v \<noteq> Some AVAILABLE)"
    by (simp add: sampleBundle_def sampleRequest_def All_less_Suc u1 statusAt_def
          sampleStore_def sampleTable_def)
  have c0: "calls sampleStore = []" by (simp add: sampleStore_def sampleTable_def)
  from one_available_preserved
         [where w = sampleStore and requests = sampleBundle and look = "sampleLookup sampleKnown"
            and out = sampleOutside and budget = 26000 and dateNow = "\<lambda>k. 1000"
            and startTime = 0, OF inv echo upd fresh]
  have "(\<forall>c\<in>set (calls (snd (transaction (tableService (sampleLookup sampleKnown) 26000)
           sampleOutside (\<lambda>k. 1000) 0 sampleBundle sampleStore))).
           oneAvailable (rows (stateAfter c))) \<and>
        oneAvailable (rows (ddb (snd (transaction (tableService (sampleLookup sampleKnown) 26000)
           sampleOutside (\<lambda>k. 1000) 0 sampleBundle sampleStore))))"
    by (auto simp: c0)
  then show ?thesis
    using inv sample_commit by (simp add: list_all_iff)
qed


text \<open>
  The claim C8 as stated: the store holds version 2 of X, available, and no other row. A
  create with the id X stages version 1 of X, and the unlock phase makes it available
  too.
\<close>

lemma sample_create_existing:
  "statusAt (rows (ddb (snd (transaction (tableService (sampleLookup []) 26000) sampleOutside
       (\<lambda>k. 1000) 0 [sampleRequest Create ''X''] laterVersionX)))) ''X'' ''1'' = Some AVAILABLE"
  "statusAt (rows (ddb (snd (transaction (tableService (sampleLookup []) 26000) sampleOutside
       (\<lambda>k. 1000) 0 [sampleRequest Create ''X''] laterVersionX)))) ''X'' ''2'' = Some AVAILABLE"
  "success (projr (fst (transaction (tableService (sampleLookup []) 26000) sampleOutside
       (\<lambda>k. 1000) 0 [sampleRequest Create ''X''] laterVersionX)))"
  by code_simp+

theorem create_over_available_counterexample:
  "oneAvailable (rows (ddb laterVersionX)) \<and>
   \<not> oneAvailable (rows (ddb (snd (transaction (tableService (sampleLookup []) 26000)
        sampleOutside (\<lambda>k. 1000) 0 [sampleRequest Create ''X''] laterVersionX))))"
proof
  show "oneAvailable (rows (ddb laterVersionX))"
    by (auto simp: oneAvailable_def statusAt_def laterVersionX_def sampleTable_def sampleRow_def
          split: if_splits)
next
  show "\<not> oneAvailable (rows (ddb (snd (transaction (tableService (sampleLookup []) 26000)
        sampleOutside (\<lambda>k. 1000) 0 [sampleRequest Create ''X''] laterVersionX))))"
  proof
    assume "oneAvailable (rows (ddb (snd (transaction (tableService (sampleLookup []) 26000)
        sampleOutside (\<lambda>k. 1000) 0 [sampleRequest Create ''X''] laterVersionX))))"
    then have "''1'' = ''2''"
      unfolding oneAvailable_def using sample_create_existing(1,2) by blast
    then show False by simp
  qed
qed

section \<open>The statuses the unlock phase leaves\<close>

lemma submitInTurn_all_answered:
  "list_all answerOf (submitInTurn db s ps) \<Longrightarrow> map requestsOf (submitInTurn db s ps) = ps"
  by (induction ps arbitrary: s) (auto split: prod.splits if_splits)

lemma unlockItems_log:
  "calls (snd (unlockItems svc lockedItems rollBack w)) =
     calls w @ submitInTurn (dynamoDb svc) (ddb w)
                 (chunkArray (map (unlockRequest rollBack) lockedItems) MAX_TRANSACTION_SIZE) \<and>
   successfulUnlock (fst (unlockItems svc lockedItems rollBack w)) =
     list_all answerOf (submitInTurn (dynamoDb svc) (ddb w)
                 (chunkArray (map (unlockRequest rollBack) lockedItems) MAX_TRANSACTION_SIZE))"
proof (cases "lockedItems = []")
  case True
  then show ?thesis by (simp add: unlockItems_def chunkArray.simps)
next
  case False
  then show ?thesis
    using unlockLoop_log[of "dynamoDb svc"
            "chunkArray (map (unlockRequest rollBack) lockedItems) MAX_TRANSACTION_SIZE"
            "chunkArray lockedItems MAX_TRANSACTION_SIZE" 0 w]
    by (simp add: unlockItems_def Let_def)
qed

lemma applyWrites_append:
  "applyWrites t (xs @ ys) =
     (case applyWrites t xs of None \<Rightarrow> None | Some t1 \<Rightarrow> applyWrites t1 ys)"
  by (induction xs arbitrary: t) (auto split: option.splits)

lemma unlockLoop_table_rows:
  assumes "successfulUnlock (fst (unlockLoop db ps lcs i w))"
    and "db = tableClient look"
  shows "applyWrites (rows (ddb w)) (concat (drop i ps)) =
           Some (rows (ddb (snd (unlockLoop db ps lcs i w))))"
  using assms
proof (induction db ps lcs i w rule: unlockLoop.induct)
  case (1 db ps lcs i w)
  show ?case
  proof (cases "i < length ps")
    case False
    then show ?thesis by (subst unlockLoop.simps) simp
  next
    case True
    then have dr: "drop i ps = ps ! i # drop (Suc i) ps" by (simp add: Cons_nth_drop_Suc)
    obtain ok s where t: "tableTransactWrite (ddb w) (ps ! i) = (ok, s)"
      by (cases "tableTransactWrite (ddb w) (ps ! i)")
    let ?w1 = "\<lparr>ddb = s, calls = calls w @ [TransactWrite (ps ! i) ok s]\<rparr>"
    have c: "callTransactWrite db (ps ! i) w = (ok, ?w1)"
      using "1.prems"(2) by (simp add: callTransactWrite_def tableClient_def t)
    show ?thesis
    proof (cases ok)
      case False
      then have "unlockLoop db ps lcs i w =
                   (\<lparr>successfulUnlock = False, locksFailedToRelease = concat (drop i lcs)\<rparr>, ?w1)"
        using True c by (subst unlockLoop.simps) simp
      then show ?thesis using "1.prems"(1) by simp
    next
      case ok: True
      have step: "unlockLoop db ps lcs i w = unlockLoop db ps lcs (Suc i) ?w1"
        using True c ok by (subst unlockLoop.simps) simp
      from t ok have t': "tableTransactWrite (ddb w) (ps ! i) = (True, s)" by simp
      have a: "applyWrites (rows (ddb w)) (ps ! i) = Some (rows s)"
        using t' by (rule tableTransactWrite_ok)
      have "applyWrites (rows (ddb ?w1)) (concat (drop (Suc i) ps)) =
              Some (rows (ddb (snd (unlockLoop db ps lcs (Suc i) ?w1))))"
        using "1.IH"[OF True c[symmetric]] ok "1.prems" step by simp
      then show ?thesis
        using a by (simp add: step dr applyWrites_append)
    qed
  qed
qed

lemma applyWrites_status_writes:
  assumes "applyWrites t (map (\<lambda>l. UpdateDocumentStatus None (g l) (fst (k l)) (Some (snd (k l)))) ls) =
             Some t1"
  shows "(\<forall>l\<in>set ls. statusAt t1 (fst (k l)) (snd (k l)) =
                          Some (g (last (filter (\<lambda>m. k m = k l) ls)))) \<and>
         (\<forall>key. key \<notin> k ` set ls \<longrightarrow> t1 key = t key)"
  using assms
proof (induction ls arbitrary: t)
  case Nil
  then show ?case by simp
next
  case (Cons l ls)
  from Cons.prems obtain t2 where
    a: "applyWrite t (UpdateDocumentStatus None (g l) (fst (k l)) (Some (snd (k l)))) = Some t2"
    and b: "applyWrites t2
              (map (\<lambda>l. UpdateDocumentStatus None (g l) (fst (k l)) (Some (snd (k l)))) ls) = Some t1"
    by (auto split: option.splits)
  have t2: "statusAt t2 (fst (k l)) (snd (k l)) = Some (g l)"
    and other: "\<And>key. key \<noteq> k l \<Longrightarrow> t2 key = t key"
    using a by (auto simp: statusAt_def bareRow_def split: option.splits)
  from Cons.IH[OF b] have
    ih1: "\<forall>m\<in>set ls. statusAt t1 (fst (k m)) (snd (k m)) =
                          Some (g (last (filter (\<lambda>x. k x = k m) ls)))"
    and ih2: "\<forall>key. key \<notin> k ` set ls \<longrightarrow> t1 key = t2 key" by blast+
  have later: "statusAt t1 (fst (k m)) (snd (k m)) =
                 Some (g (last (filter (\<lambda>x. k x = k m) (l # ls))))" if m: "m \<in> set ls" for m
  proof -
    from m have "filter (\<lambda>x. k x = k m) ls \<noteq> []" by (auto simp: filter_empty_conv)
    then have "last (filter (\<lambda>x. k x = k m) (l # ls)) = last (filter (\<lambda>x. k x = k m) ls)"
      by simp
    then show ?thesis using ih1 m by simp
  qed
  have first: "statusAt t1 (fst (k l)) (snd (k l)) =
                 Some (g (last (filter (\<lambda>x. k x = k l) (l # ls))))"
  proof (cases "k l \<in> k ` set ls")
    case True
    then obtain m where m: "m \<in> set ls" and km: "k l = k m" by blast
    from later[OF m] show ?thesis by (simp only: km)
  next
    case False
    then have "\<forall>x\<in>set ls. k x \<noteq> k l" by (metis imageI)
    then have "filter (\<lambda>x. k x = k l) ls = []" by (simp add: filter_empty_conv)
    moreover have "t1 (k l) = t2 (k l)" using ih2 False by blast
    ultimately show ?thesis using t2 by (simp add: statusAt_def)
  qed
  have "\<forall>key. key \<notin> k ` set (l # ls) \<longrightarrow> t1 key = t key"
    using ih2 other by auto
  then show ?case using first later by simp
qed

lemma filter_distinct_key:
  "distinct (map k ls) \<Longrightarrow> l \<in> set ls \<Longrightarrow> filter (\<lambda>m. k m = k l) ls = [l]"
proof (induction ls)
  case Nil
  then show ?case by simp
next
  case (Cons a ls)
  show ?case
  proof (cases "l = a")
    case True
    from Cons.prems(1) have "k a \<notin> k ` set ls" by simp
    then have "\<forall>x\<in>set ls. k x \<noteq> k a" by (metis imageI)
    then have "filter (\<lambda>m. k m = k a) ls = []" by (simp add: filter_empty_conv)
    then show ?thesis using True by simp
  next
    case False
    then have l: "l \<in> set ls" using Cons.prems(2) by simp
    from Cons.prems(1) have "k a \<notin> k ` set ls" and d: "distinct (map k ls)" by simp_all
    then have "k a \<noteq> k l" using l by blast
    then show ?thesis using Cons.IH[OF d l] by simp
  qed
qed

text \<open>
  C1: the unlock phase hands the store, through \<open>transactWriteItems\<close> and in batches of
  at most 25, one unconditional status write for each lock of the lock set, in the order
  of the set: with \<open>rollBack\<close> false to \<open>DELETED\<close> for a lock whose operation is delete,
  or update with \<open>isOriginalUpdateItem\<close> set, and to \<open>AVAILABLE\<close> for every other lock;
  with \<open>rollBack\<close> true to \<open>AVAILABLE\<close> for every lock. The calls added to the log are
  exactly these batches, submitted in turn up to the first one the store refuses; the
  unlock succeeds exactly when the store accepts them all, and then every lock has had
  its write. On the table an unlock that succeeds leaves the row of every lock in the
  status of the rule (of the last lock of that row, should two locks name one row) and
  leaves every other row as it was.
\<close>

theorem unlock_status_rule:
  "let status = (\<lambda>l. if rollBack then AVAILABLE
                     else if lk_operation l = Delete \<or>
                             (lk_operation l = Update \<and> lk_isOriginalUpdateItem l = Some True)
                          then DELETED else AVAILABLE);
       row = (\<lambda>l. (lk_id l, or_default (lk_vid l) ''0''));
       writes = map (\<lambda>l. UpdateDocumentStatus None (status l) (fst (row l)) (Some (snd (row l))))
                  lockedItems;
       batches = submitInTurn (dynamoDb svc) (ddb w) (chunkArray writes MAX_TRANSACTION_SIZE);
       released = rows (ddb (snd (unlockItems (tableService look budget) lockedItems rollBack tw)))
   in calls (snd (unlockItems svc lockedItems rollBack w)) = calls w @ batches \<and>
      list_all isWrite batches \<and>
      concat (chunkArray writes MAX_TRANSACTION_SIZE) = writes \<and>
      successfulUnlock (fst (unlockItems svc lockedItems rollBack w)) = list_all answerOf batches \<and>
      (successfulUnlock (fst (unlockItems svc lockedItems rollBack w)) \<longrightarrow>
         map requestsOf batches = chunkArray writes MAX_TRANSACTION_SIZE) \<and>
      (successfulUnlock (fst (unlockItems (tableService look budget) lockedItems rollBack tw)) \<longrightarrow>
         (\<forall>l\<in>set lockedItems.
            statusAt released (fst (row l)) (snd (row l)) =
              Some (status (last (filter (\<lambda>m. row m = row l) lockedItems)))) \<and>
         (distinct (map row lockedItems) \<longrightarrow>
            (\<forall>l\<in>set lockedItems. statusAt released (fst (row l)) (snd (row l)) = Some (status l))) \<and>
         (\<forall>key. key \<notin> row ` set lockedItems \<longrightarrow> released key = rows (ddb tw) key))"
proof -
  let ?G = "\<lambda>l. if rollBack then AVAILABLE
                 else if lk_operation l = Delete \<or>
                         (lk_operation l = Update \<and> lk_isOriginalUpdateItem l = Some True)
                      then DELETED else AVAILABLE"
  let ?k = "\<lambda>l. (lk_id l, or_default (lk_vid l) ''0'')"
  let ?F = "\<lambda>l. UpdateDocumentStatus None (?G l) (fst (?k l)) (Some (snd (?k l)))"
  let ?ps = "chunkArray (map ?F lockedItems) MAX_TRANSACTION_SIZE"
  let ?new = "submitInTurn (dynamoDb svc) (ddb w) ?ps"
  let ?w' = "snd (unlockItems (tableService look budget) lockedItems rollBack tw)"
  have F: "unlockRequest rollBack = ?F"
    by (rule ext) (simp add: unlockRequest_def)
  have 1: "calls (snd (unlockItems svc lockedItems rollBack w)) = calls w @ ?new"
    and 3: "successfulUnlock (fst (unlockItems svc lockedItems rollBack w)) =
             list_all answerOf ?new"
    using unlockItems_log[of svc lockedItems rollBack w] unfolding F by blast+
  have 2: "concat ?ps = map ?F lockedItems"
    by (rule concat_chunkArray) (simp add: MAX_TRANSACTION_SIZE_def)
  have w: "list_all isWrite ?new"
    by (rule submitInTurn_isWrite)
  have 4: "successfulUnlock (fst (unlockItems svc lockedItems rollBack w)) \<longrightarrow>
             map requestsOf ?new = ?ps"
    unfolding 3 by (rule impI) (rule submitInTurn_all_answered)
  have 5: "(\<forall>l\<in>set lockedItems.
              statusAt (rows (ddb ?w')) (fst (?k l)) (snd (?k l)) =
                Some (?G (last (filter (\<lambda>m. ?k m = ?k l) lockedItems)))) \<and>
           (distinct (map ?k lockedItems) \<longrightarrow>
              (\<forall>l\<in>set lockedItems.
                 statusAt (rows (ddb ?w')) (fst (?k l)) (snd (?k l)) = Some (?G l))) \<and>
           (\<forall>key. key \<notin> ?k ` set lockedItems \<longrightarrow> rows (ddb ?w') key = rows (ddb tw) key)"
    if ok: "successfulUnlock (fst (unlockItems (tableService look budget) lockedItems rollBack tw))"
  proof -
    have run: "unlockItems (tableService look budget) lockedItems rollBack tw =
                 unlockLoop (tableClient look) ?ps
                   (chunkArray lockedItems MAX_TRANSACTION_SIZE) 0 tw"
    proof (cases "lockedItems = []")
      case True
      then show ?thesis
        by (simp add: unlockItems_def chunkArray.simps unlockLoop.simps)
    next
      case False
      then show ?thesis by (simp add: unlockItems_def Let_def F tableService_def)
    qed
    have "applyWrites (rows (ddb tw)) (concat (drop 0 ?ps)) = Some (rows (ddb ?w'))"
      unfolding run by (rule unlockLoop_table_rows[OF ok[unfolded run] refl])
    then have a: "applyWrites (rows (ddb tw)) (map ?F lockedItems) = Some (rows (ddb ?w'))"
      by (simp only: drop_0 2)
    note sw = applyWrites_status_writes[OF a]
    have last: "\<forall>l\<in>set lockedItems.
              statusAt (rows (ddb ?w')) (fst (?k l)) (snd (?k l)) =
                Some (?G (last (filter (\<lambda>m. ?k m = ?k l) lockedItems)))"
      using sw by (rule conjunct1)
    have rest: "\<forall>key. key \<notin> ?k ` set lockedItems \<longrightarrow> rows (ddb ?w') key = rows (ddb tw) key"
      using sw by (rule conjunct2)
    have "statusAt (rows (ddb ?w')) (fst (?k l)) (snd (?k l)) = Some (?G l)"
      if d: "distinct (map ?k lockedItems)" and l: "l \<in> set lockedItems" for l
    proof -
      have "filter (\<lambda>m. ?k m = ?k l) lockedItems = [l]"
        using d l by (rule filter_distinct_key)
      then have "last (filter (\<lambda>m. ?k m = ?k l) lockedItems) = l" by simp
      then show ?thesis using bspec[OF last l] by (simp only: )
    qed
    then show ?thesis using last rest by blast
  qed
  show ?thesis
    unfolding Let_def using 1 w 2 3 4 5 by blast
qed

lemma sample_unlock_held:
  "distinct (map (\<lambda>l. (lk_id l, or_default (lk_vid l) ''0'')) sampleHeldLocks)"
  "successfulUnlock (fst (unlockItems (tableService (sampleLookup []) 26000) sampleHeldLocks False
                            heldStore))"
  "successfulUnlock (fst (unlockItems (tableService (sampleLookup []) 26000) sampleHeldLocks True
                            heldStore))"
  "map requestsOf (calls (snd (unlockItems (tableService (sampleLookup []) 26000) sampleHeldLocks
                                  False heldStore))) =
     [[UpdateDocumentStatus None DELETED ''X'' (Some ''3''),
       UpdateDocumentStatus None AVAILABLE ''X'' (Some ''4''),
       UpdateDocumentStatus None DELETED ''Y'' (Some ''1''),
       UpdateDocumentStatus None AVAILABLE ''Z'' (Some ''2''),
       UpdateDocumentStatus None AVAILABLE ''W'' (Some ''1'')]]"
  by code_simp+

theorem unlock_status_rule_witness:
  "distinct (map (\<lambda>l. (lk_id l, or_default (lk_vid l) ''0'')) sampleHeldLocks) \<and>
   successfulUnlock (fst (unlockItems (tableService (sampleLookup []) 26000) sampleHeldLocks False
                            heldStore)) \<and>
   map requestsOf (calls (snd (unlockItems (tableService (sampleLookup []) 26000) sampleHeldLocks
                                  False heldStore))) =
     [[UpdateDocumentStatus None DELETED ''X'' (Some ''3''),
       UpdateDocumentStatus None AVAILABLE ''X'' (Some ''4''),
       UpdateDocumentStatus None DELETED ''Y'' (Some ''1''),
       UpdateDocumentStatus None AVAILABLE ''Z'' (Some ''2''),
       UpdateDocumentStatus None AVAILABLE ''W'' (Some ''1'')]] \<and>
   map (\<lambda>l. statusAt (rows (ddb (snd (unlockItems (tableService (sampleLookup []) 26000)
                                        sampleHeldLocks False heldStore))))
              (lk_id l) (or_default (lk_vid l) ''0'')) sampleHeldLocks =
     [Some DELETED, Some AVAILABLE, Some DELETED, Some AVAILABLE, Some AVAILABLE] \<and>
   successfulUnlock (fst (unlockItems (tableService (sampleLookup []) 26000) sampleHeldLocks True
                            heldStore)) \<and>
   map (\<lambda>l. statusAt (rows (ddb (snd (unlockItems (tableService (sampleLookup []) 26000)
                                        sampleHeldLocks True heldStore))))
              (lk_id l) (or_default (lk_vid l) ''0'')) sampleHeldLocks =
     [Some AVAILABLE, Some AVAILABLE, Some AVAILABLE, Some AVAILABLE, Some AVAILABLE]"
proof -
  note inst = unlock_status_rule
    [where lockedItems = sampleHeldLocks and look = "sampleLookup []" and budget = 26000
       and tw = heldStore and svc = "tableService (sampleLookup []) 26000" and w = heldStore,
     unfolded Let_def fst_conv snd_conv]
  have f: "map (\<lambda>l. statusAt (rows (ddb (snd (unlockItems (tableService (sampleLookup []) 26000)
                                        sampleHeldLocks False heldStore))))
              (lk_id l) (or_default (lk_vid l) ''0'')) sampleHeldLocks =
     [Some DELETED, Some AVAILABLE, Some DELETED, Some AVAILABLE, Some AVAILABLE]"
    using inst[where rollBack = False] sample_unlock_held(1,2)
    by (simp add: sampleHeldLocks_def sampleLock_def)
  have t: "map (\<lambda>l. statusAt (rows (ddb (snd (unlockItems (tableService (sampleLookup []) 26000)
                                        sampleHeldLocks True heldStore))))
              (lk_id l) (or_default (lk_vid l) ''0'')) sampleHeldLocks =
     [Some AVAILABLE, Some AVAILABLE, Some AVAILABLE, Some AVAILABLE, Some AVAILABLE]"
    using inst[where rollBack = True] sample_unlock_held(1,3)
    by (simp add: sampleHeldLocks_def sampleLock_def)
  from f t sample_unlock_held show ?thesis by simp
qed

end
